theory Spec2Isabelle
  imports Main "HOL-Library.Word"
begin

unbundle bit_operations_syntax

chapter \<open>The bucketed Equihash solver of equi\_miner.h\<close>

text \<open>
  A shallow embedding of \<^verbatim>\<open>src/hide/equi_miner.h\<close>. Arrays are functions from indices
  to contents, with the bound of every index that the types of the program do not already
  bound checked at the access: an access outside the allocated object is undefined in C++
  and is the value \<open>None\<close> here. Unsigned 32-bit and 8-bit values are words, so that
  every \<open>+\<close> wraps as in the program. Layer numbers, loop indices and array positions
  are natural numbers.

  The barriers, the thread pool, the histogram printing and the accounting of allocated
  bytes are left out; a digit function is the sequential run of one thread on the state.
\<close>

section \<open>Machine types and build parameters\<close>

type_synonym u32 = "32 word"
type_synonym u64 = "64 word"
type_synonym uchar = "8 word"

text \<open>
  The header \<^verbatim>\<open>equi.h\<close> is not part of the sources: \<open>WN\<close> and \<open>WK\<close> (the N and K
  of Equihash) and the build flag \<open>XINTREE\<close> are parameters of the model.
\<close>

record params =
  WN :: nat
  WK :: nat
  XINTREE :: bool

text \<open>Modelled from the spec: \<open>n = N / (K+1)\<close>, the digit width that equi.h defines.\<close>

definition DIGITBITS :: "params \<Rightarrow> nat" where
  "DIGITBITS P = WN P div (WK P + 1)"

text \<open>Modelled from the spec: \<open>PROOFSIZE = 2^K\<close>, defined in equi.h.\<close>

definition PROOFSIZE :: "params \<Rightarrow> nat" where
  "PROOFSIZE P = 2 ^ WK P"

text \<open>Modelled from the spec: there are \<open>2^(n+1)\<close> hashes; defined in equi.h.\<close>

definition NHASHES :: "params \<Rightarrow> nat" where
  "NHASHES P = 2 * 2 ^ DIGITBITS P"

text \<open>Modelled from the spec: \<open>HASHESPERBLAKE = 512 / N\<close>, defined in equi.h.\<close>

definition HASHESPERBLAKE :: "params \<Rightarrow> nat" where
  "HASHESPERBLAKE P = 512 div WN P"

definition RESTBITS :: nat where
  "RESTBITS = 4"

definition BUCKBITS :: "params \<Rightarrow> nat" where
  "BUCKBITS P = DIGITBITS P - RESTBITS"

definition NBUCKETS :: "params \<Rightarrow> nat" where
  "NBUCKETS P = 2 ^ BUCKBITS P"

definition SLOTBITS :: nat where
  "SLOTBITS = RESTBITS + 1 + 1"

definition NSLOTS :: nat where
  "NSLOTS = 2 ^ SLOTBITS"

definition XFULL :: nat where
  "XFULL = NSLOTS div 4"

definition SLOTMASK :: u32 where
  "SLOTMASK = of_nat NSLOTS - 1"

definition NRESTS :: nat where
  "NRESTS = 2 ^ RESTBITS"

definition NBLOCKS :: "params \<Rightarrow> nat" where
  "NBLOCKS P = (NHASHES P + HASHESPERBLAKE P - 1) div HASHESPERBLAKE P"

definition MAXSOLS :: nat where
  "MAXSOLS = 8"

text \<open>The production parameters, and a smaller build with the same digit width.\<close>

definition P200 :: params where
  "P200 = \<lparr>WN = 200, WK = 9, XINTREE = True\<rparr>"

definition P80 :: params where
  "P80 = \<lparr>WN = 80, WK = 3, XINTREE = True\<rparr>"

text \<open>Equihash with N = 200 and K = 4: digits of 40 bits, which the code does not implement.\<close>

definition P200_4 :: params where
  "P200_4 = \<lparr>WN = 200, WK = 4, XINTREE = True\<rparr>"

section \<open>Tree nodes\<close>

text \<open>
  \<^verbatim>\<open>struct tree\<close> is four bit-fields. A store into a bit-field keeps the low bits of
  the value: \<open>BUCKBITS\<close> of them for \<open>bucketid\<close>, \<open>SLOTBITS\<close> for the slot ids,
  \<open>RESTBITS\<close> for \<open>xhash\<close>.
\<close>

record tree =
  bucketid :: u32
  slotid0 :: u32
  slotid1 :: u32
  xhash :: u32

definition getindex :: "tree \<Rightarrow> u32" where
  "getindex t = push_bit SLOTBITS (bucketid t) OR slotid0 t"

definition setindex :: "params \<Rightarrow> u32 \<Rightarrow> tree \<Rightarrow> tree" where
  "setindex P idx t =
     (let t1 = t\<lparr>slotid0 := take_bit SLOTBITS (idx AND SLOTMASK)\<rparr>
      in t1\<lparr>bucketid := take_bit (BUCKBITS P) (drop_bit SLOTBITS idx)\<rparr>)"

section \<open>Hash sizes and the per-layer layout\<close>

definition hashsize :: "params \<Rightarrow> u32 \<Rightarrow> u32" where
  "hashsize P r =
     (let hashbits =
        (if XINTREE P then of_nat (WN P) - (r + 1) * of_nat (DIGITBITS P)
         else of_nat (WN P) - (r + 1) * of_nat (DIGITBITS P) + of_nat RESTBITS)
      in (hashbits + 7) div 8)"

definition hashwords :: "u32 \<Rightarrow> u32" where
  "hashwords bytes = (bytes + 3) div 4"

text \<open>
  \<^verbatim>\<open>struct htlayout\<close> without its copy of the arena pointers: the arena is reached
  through the solver state.
\<close>

record htlayout =
  prevhashunits :: u32
  nexthashunits :: u32
  dunits :: u32
  prevbo :: u32
  nextbo :: u32

definition htlayout_init :: "params \<Rightarrow> u32 \<Rightarrow> htlayout" where
  "htlayout_init P r =
     (let nexthashbytes = hashsize P r;
          nhu = hashwords nexthashbytes;
          h0 = \<lparr>prevhashunits = 0, nexthashunits = nhu, dunits = 0, prevbo = 0,
                nextbo = nhu * 4 - nexthashbytes\<rparr>
      in if r \<noteq> 0 then
           (let prevhashbytes = hashsize P (r - 1);
                phu = hashwords prevhashbytes
            in h0\<lparr>prevhashunits := phu, prevbo := phu * 4 - prevhashbytes,
                  dunits := phu - nexthashunits h0\<rparr>)
         else h0)"

text \<open>The word count of the stored hash over the natural numbers, for the proofs.\<close>

definition hashbits_n :: "params \<Rightarrow> nat \<Rightarrow> nat" where
  "hashbits_n P k = WN P - (k + 1) * DIGITBITS P + (if XINTREE P then 0 else RESTBITS)"

section \<open>Slots, the arena and the solver state\<close>

text \<open>
  A slot is a tree node and a hash. \<^verbatim>\<open>union hashunit\<close> overlays a 32-bit word and its
  four bytes; the model keeps the bytes, and word \<open>i\<close> of a hash is bytes \<open>4i .. 4i+3\<close>.
  Equality and exclusive-or of words are equality and exclusive-or of their bytes, in
  either byte order.
\<close>

record slot0 =
  attr :: tree
  hash :: "nat \<Rightarrow> uchar"

definition hashword :: "(nat \<Rightarrow> uchar) \<Rightarrow> nat \<Rightarrow> uchar list" where
  "hashword h i = [h (4 * i), h (4 * i + 1), h (4 * i + 2), h (4 * i + 3)]"

text \<open>
  \<^verbatim>\<open>struct htalloc\<close>: two heaps of \<open>NBUCKETS\<close> buckets of \<open>NSLOTS\<close> slots.
  \<open>heap h k b s\<close> is slot \<open>s\<close> of bucket \<open>b\<close> of heap \<open>k\<close>. alloctrees sets
  \<^verbatim>\<open>trees[r] = (bucket0 *)heap[r&1] + r/2\<close>, so bucket \<open>b\<close> of layer \<open>r\<close> is bucket
  \<open>r/2 + b\<close> of heap \<open>r mod 2\<close>, and \<open>trees\<close> has \<open>WK\<close> entries.
\<close>

record htalloc =
  heap :: "nat \<Rightarrow> nat \<Rightarrow> nat \<Rightarrow> slot0"

definition trees_ok :: "params \<Rightarrow> nat \<Rightarrow> nat \<Rightarrow> nat \<Rightarrow> bool" where
  "trees_ok P r b s \<longleftrightarrow> r < WK P \<and> r div 2 + b < NBUCKETS P \<and> s < NSLOTS"

definition trees_get :: "params \<Rightarrow> htalloc \<Rightarrow> nat \<Rightarrow> nat \<Rightarrow> nat \<Rightarrow> slot0 option" where
  "trees_get P h r b s =
     (if trees_ok P r b s then Some (heap h (r mod 2) (r div 2 + b) s) else None)"

definition trees_put :: "params \<Rightarrow> nat \<Rightarrow> nat \<Rightarrow> nat \<Rightarrow> slot0 \<Rightarrow> htalloc \<Rightarrow> htalloc option" where
  "trees_put P r b s v h =
     (if trees_ok P r b s then
        Some (h\<lparr>heap := (heap h)(r mod 2 := (heap h (r mod 2))
                 (r div 2 + b := (heap h (r mod 2) (r div 2 + b))(s := v)))\<rparr>)
      else None)"

text \<open>
  \<^verbatim>\<open>struct equi\<close>. \<open>blake_ctx b\<close> stands for the bytes that Blake2b, keyed by
  setnonce, returns for block \<open>b\<close>: the hash function is a parameter of the solver.
  \<open>nslots k b\<close> is the counter of bucket \<open>b\<close> for the layers of parity \<open>k\<close>;
  \<open>sols i\<close> is the \<open>i\<close>-th proof, an array of \<open>PROOFSIZE\<close> indices.
\<close>

record equi =
  blake_ctx :: "u32 \<Rightarrow> nat \<Rightarrow> uchar"
  hta :: htalloc
  nslots :: "nat \<Rightarrow> nat \<Rightarrow> u32"
  sols :: "nat \<Rightarrow> nat \<Rightarrow> u32"
  nsols :: u32
  nthreads :: u32
  xfull :: u32
  hfull :: u32
  bfull :: u32

definition zero_tree :: tree where
  "zero_tree = \<lparr>bucketid = 0, slotid0 = 0, slotid1 = 0, xhash = 0\<rparr>"

definition zero_slot :: slot0 where
  "zero_slot = \<lparr>attr = zero_tree, hash = (\<lambda>_. 0)\<rparr>"

text \<open>
  The constructor assigns \<open>nthreads\<close> and takes the arena, the bucket counters and
  \<open>sols\<close> from calloc. It does not initialise \<open>blake_ctx\<close>, \<open>nsols\<close> and the three
  overflow counters: they keep what the memory \<open>mem\<close> of the object held.
\<close>

definition equi_new :: "u32 \<Rightarrow> equi \<Rightarrow> equi" where
  "equi_new n_threads mem =
     mem\<lparr>nthreads := n_threads, hta := \<lparr>heap = (\<lambda>_ _ _. zero_slot)\<rparr>,
         nslots := (\<lambda>_ _. 0), sols := (\<lambda>_ _. 0)\<rparr>"

text \<open>Some memory for an object, and some contents for a local node that is not initialised.\<close>

definition mem_junk :: equi where
  "mem_junk =
     \<lparr>blake_ctx = (\<lambda>_ _. 170),
      hta = \<lparr>heap = (\<lambda>_ _ _. \<lparr>attr = \<lparr>bucketid = 9, slotid0 = 8, slotid1 = 7, xhash = 6\<rparr>,
                                hash = (\<lambda>_. 255)\<rparr>)\<rparr>,
      nslots = (\<lambda>_ _. 99), sols = (\<lambda>_ _. 77), nsols = 12, nthreads = 0,
      xfull = 3, hfull = 4, bfull = 5\<rparr>"

definition stale_tree :: tree where
  "stale_tree = \<lparr>bucketid = 77, slotid0 = 13, slotid1 = 21, xhash = 9\<rparr>"

definition setnonce :: "(u32 \<Rightarrow> nat \<Rightarrow> uchar) \<Rightarrow> equi \<Rightarrow> equi" where
  "setnonce ctx st = st\<lparr>blake_ctx := ctx, nslots := (nslots st)(0 := (\<lambda>_. 0)), nsols := 0\<rparr>"

definition min_u32 :: "u32 \<Rightarrow> u32 \<Rightarrow> u32" where
  "min_u32 a b = (if a < b then a else b)"

definition getslot :: "params \<Rightarrow> nat \<Rightarrow> nat \<Rightarrow> equi \<Rightarrow> (u32 \<times> equi) option" where
  "getslot P r bucketi st =
     (if bucketi < NBUCKETS P then
        Some (nslots st (r mod 2) bucketi,
              st\<lparr>nslots := (nslots st)(r mod 2 := (nslots st (r mod 2))
                     (bucketi := nslots st (r mod 2) bucketi + 1))\<rparr>)
      else None)"

definition getnslots :: "params \<Rightarrow> nat \<Rightarrow> nat \<Rightarrow> equi \<Rightarrow> (u32 \<times> equi) option" where
  "getnslots P r bid st =
     (if bid < NBUCKETS P then
        (let nslot = nslots st (r mod 2) bid;
             n = min_u32 nslot (of_nat NSLOTS)
         in Some (n, st\<lparr>nslots := (nslots st)(r mod 2 := (nslots st (r mod 2))(bid := 0))\<rparr>))
      else None)"

section \<open>The collision finder\<close>

text \<open>
  \<^verbatim>\<open>struct collisiondata\<close> in its array form (XBITMAP not defined). \<open>xx\<close> points
  to a row of \<open>xhashslots\<close>: the model keeps the number of the row. clear only zeroes
  the counters; the other fields keep whatever they held.
\<close>

record collisiondata =
  nxhashslots :: "nat \<Rightarrow> uchar"
  xhashslots :: "nat \<Rightarrow> nat \<Rightarrow> uchar"
  xx :: nat
  n0 :: u32
  n1 :: u32

definition clear :: "collisiondata \<Rightarrow> collisiondata" where
  "clear cd = cd\<lparr>nxhashslots := (\<lambda>_. 0)\<rparr>"

definition addslot :: "u32 \<Rightarrow> u32 \<Rightarrow> collisiondata \<Rightarrow> (bool \<times> collisiondata) option" where
  "addslot s1 xh cd =
     (if unat xh < NRESTS then
        (let c = nxhashslots cd (unat xh);
             cd1 = cd\<lparr>n1 := ucast c, nxhashslots := (nxhashslots cd)(unat xh := c + 1)\<rparr>
         in if XFULL \<le> unat (n1 cd1) then Some (False, cd1)
            else Some (True, cd1\<lparr>xx := unat xh,
                   xhashslots := (xhashslots cd1)(unat xh :=
                      (xhashslots cd1 (unat xh))(unat (n1 cd1) := ucast s1)),
                   n0 := 0\<rparr>))
      else None)"

definition nextcollision :: "collisiondata \<Rightarrow> bool" where
  "nextcollision cd \<longleftrightarrow> n0 cd < n1 cd"

definition slot :: "collisiondata \<Rightarrow> u32 \<times> collisiondata" where
  "slot cd = (ucast (xhashslots cd (xx cd) (unat (n0 cd))), cd\<lparr>n0 := n0 cd + 1\<rparr>)"

text \<open>A counted loop whose body works on a state and may fail.\<close>

primrec foldM :: "('a \<Rightarrow> 's \<Rightarrow> 's option) \<Rightarrow> 'a list \<Rightarrow> 's \<Rightarrow> 's option" where
  "foldM f [] st = Some st"
| "foldM f (x # xs) st = (case f x st of None \<Rightarrow> None | Some st' \<Rightarrow> foldM f xs st')"

text \<open>
  The loop \<^verbatim>\<open>for (; cd.nextcollision(); ) { s0 = cd.slot(); body }\<close> of the digit
  functions, for a body \<open>f\<close> that works on a state and may fail. It ends: \<open>n0\<close> climbs
  to \<open>n1\<close>.
\<close>

function collide :: "(u32 \<Rightarrow> 's \<Rightarrow> 's option) \<Rightarrow> collisiondata \<Rightarrow> 's \<Rightarrow> (collisiondata \<times> 's) option" where
  "collide f cd st =
     (if nextcollision cd then
        (case f (fst (slot cd)) st of
           None \<Rightarrow> None
         | Some st' \<Rightarrow> collide f (snd (slot cd)) st')
      else Some (cd, st))"
  by pat_completeness auto
termination
proof (relation "measure (\<lambda>(f, cd, st). unat (n1 cd) - unat (n0 cd))")
  show "wf (measure (\<lambda>(f :: u32 \<Rightarrow> 's \<Rightarrow> 's option, cd, st :: 's). unat (n1 cd) - unat (n0 cd)))"
    by simp
next
  fix f :: "u32 \<Rightarrow> 's \<Rightarrow> 's option" and cd and st x2 :: 's
  assume "nextcollision cd"
  then have lt: "unat (n0 cd) < unat (n1 cd)"
    by (simp add: nextcollision_def word_less_nat_alt)
  then have "unat (n0 cd) + unat (1 :: u32) < 2 ^ LENGTH(32)"
    using unsigned_less [of "n1 cd", where 'a = nat] by simp
  then have "unat (n0 cd + 1) = unat (n0 cd) + 1"
    by (simp only: unat_add_lem [THEN iffD1] unat_1)
  then show "((f, snd (slot cd), x2), (f, cd, st))
        \<in> measure (\<lambda>(f, cd, st). unat (n1 cd) - unat (n0 cd))"
    using lt by (simp add: slot_def)
qed

declare collide.simps [simp del]

text \<open>
  Feeding the finder as the digit functions do: slot ids \<open>k, k+1, \<dots>\<close> in order, each
  with its rest value; a rejected slot yields nothing, an accepted one the partners that
  the inner loop enumerates. The result lists, per slot, what addslot returned and the
  partners.
\<close>

fun feed :: "nat \<Rightarrow> u32 list \<Rightarrow> collisiondata \<Rightarrow> (bool \<times> u32 list) list option" where
  "feed k [] cd = Some []"
| "feed k (xh # xhs) cd =
     (case addslot (of_nat k) xh cd of
        None \<Rightarrow> None
      | Some (ok, cd1) \<Rightarrow>
          (case (if ok then collide (\<lambda>s acc. Some (acc @ [s])) cd1 [] else Some (cd1, [])) of
             None \<Rightarrow> None
           | Some (cd2, ps) \<Rightarrow>
               (case feed (k + 1) xhs cd2 of
                  None \<Rightarrow> None
                | Some res \<Rightarrow> Some ((ok, ps) # res))))"

text \<open>A sequence of addslot calls, with what each returned.\<close>

fun addslots :: "(u32 \<times> u32) list \<Rightarrow> collisiondata \<Rightarrow> (bool list \<times> collisiondata) option" where
  "addslots [] cd = Some ([], cd)"
| "addslots ((s1, xh) # cs) cd =
     (case addslot s1 xh cd of
        None \<Rightarrow> None
      | Some (ok, cd1) \<Rightarrow>
          (case addslots cs cd1 of
             None \<Rightarrow> None
           | Some (oks, cd2) \<Rightarrow> Some (ok # oks, cd2)))"

text \<open>
  The slots of a history of calls that carried the rest value \<open>x\<close>, in call order, and
  the state of the finder after that history: the counter of each rest value is the number
  of calls that carried it, and the first \<open>XFULL\<close> of their slots are in its row.
\<close>

definition same_before :: "u32 list \<Rightarrow> nat \<Rightarrow> nat list" where
  "same_before xs k = filter (\<lambda>j. xs ! j = xs ! k) [0..<k]"

definition accepted :: "u32 list \<Rightarrow> nat \<Rightarrow> bool" where
  "accepted xs k \<longleftrightarrow> length (same_before xs k) < XFULL"

definition occ :: "(u32 \<times> u32) list \<Rightarrow> u32 \<Rightarrow> u32 list" where
  "occ hist x = map fst (filter (\<lambda>p. snd p = x) hist)"

definition hist_of :: "u32 list \<Rightarrow> (u32 \<times> u32) list" where
  "hist_of xs = zip (map of_nat [0..<length xs]) xs"

definition cd_inv :: "(u32 \<times> u32) list \<Rightarrow> collisiondata \<Rightarrow> bool" where
  "cd_inv hist cd \<longleftrightarrow>
     (\<forall>x. unat x < NRESTS \<longrightarrow>
        unat (nxhashslots cd (unat x)) = length (occ hist x) \<and>
        (\<forall>j. j < length (occ hist x) \<and> j < XFULL \<longrightarrow>
           xhashslots cd (unat x) j = ucast (occ hist x ! j)))"

text \<open>A finder with arbitrary contents, and 18 calls that all carry the rest value 1.\<close>

definition cd_junk :: collisiondata where
  "cd_junk = \<lparr>nxhashslots = (\<lambda>_. 7), xhashslots = (\<lambda>_ _. 9), xx = 3, n0 = 5, n1 = 2\<rparr>"

definition calls18 :: "(u32 \<times> u32) list" where
  "calls18 = map (\<lambda>k. (of_nat k, 1)) [0..<18]"

subsection \<open>The bitmap form of the finder\<close>

text \<open>
  \<^verbatim>\<open>struct collisiondata\<close> with XBITMAP defined: per rest value a 64-bit mask of the
  slots seen so far. Its functions carry the suffix \<open>_bm\<close>. \<^verbatim>\<open>__builtin_ffsll\<close> is
  the compiler's: one plus the position of the lowest set bit, and 0 for the word 0.
  Shifting a 64-bit word by 64 or more is undefined: the value \<open>None\<close>.
\<close>

record collisiondata_bm =
  xhashmap :: "nat \<Rightarrow> u64"
  xmap :: u64
  s0 :: u32

definition ffsll :: "u64 \<Rightarrow> nat" where
  "ffsll w = (if w = 0 then 0 else Suc (length (takeWhile (\<lambda>n. \<not> bit w n) [0..<64])))"

definition clear_bm :: "collisiondata_bm \<Rightarrow> collisiondata_bm" where
  "clear_bm cd = cd\<lparr>xhashmap := (\<lambda>_. 0)\<rparr>"

definition addslot_bm :: "u32 \<Rightarrow> u32 \<Rightarrow> collisiondata_bm \<Rightarrow> (bool \<times> collisiondata_bm) option" where
  "addslot_bm s1 xh cd =
     (if unat xh < NRESTS \<and> unat s1 < 64 then
        Some (True, cd\<lparr>xmap := xhashmap cd (unat xh),
                       xhashmap := (xhashmap cd)(unat xh :=
                          xhashmap cd (unat xh) OR push_bit (unat s1) 1),
                       s0 := - 1\<rparr>)
      else None)"

definition nextcollision_bm :: "collisiondata_bm \<Rightarrow> bool" where
  "nextcollision_bm cd \<longleftrightarrow> xmap cd \<noteq> 0"

definition slot_bm :: "collisiondata_bm \<Rightarrow> (u32 \<times> collisiondata_bm) option" where
  "slot_bm cd =
     (let ffs = ffsll (xmap cd)
      in if 64 \<le> ffs then None
         else Some (s0 cd + of_nat ffs,
                    cd\<lparr>s0 := s0 cd + of_nat ffs, xmap := drop_bit ffs (xmap cd)\<rparr>))"

text \<open>
  The same loop over the bitmap form. It ends: every step shifts the nonzero word
  \<open>xmap\<close> right by at least one place.
\<close>

function collide_bm :: "(u32 \<Rightarrow> 's \<Rightarrow> 's option) \<Rightarrow> collisiondata_bm \<Rightarrow> 's
    \<Rightarrow> (collisiondata_bm \<times> 's) option" where
  "collide_bm f cd st =
     (if nextcollision_bm cd then
        (case slot_bm cd of
           None \<Rightarrow> None
         | Some (s, cd1) \<Rightarrow>
             (case f s st of
                None \<Rightarrow> None
              | Some st' \<Rightarrow> collide_bm f cd1 st'))
      else Some (cd, st))"
  by pat_completeness auto
termination
proof (relation "measure (\<lambda>(f, cd, st). unat (xmap cd))")
  show "wf (measure (\<lambda>(f :: u32 \<Rightarrow> 's \<Rightarrow> 's option, cd, st :: 's). unat (xmap cd)))"
    by simp
next
  fix f :: "u32 \<Rightarrow> 's \<Rightarrow> 's option" and cd and st x2 :: 's and p s cd1
  assume nz: "nextcollision_bm cd" and sl: "slot_bm cd = Some p" and p: "(s, cd1) = p"
  from nz have w: "xmap cd \<noteq> 0" by (simp add: nextcollision_bm_def)
  then have pos: "0 < unat (xmap cd)" by (simp add: unat_gt_0)
  from sl p w have x: "xmap cd1 = drop_bit (ffsll (xmap cd)) (xmap cd)"
    by (auto simp add: slot_bm_def Let_def split: if_splits)
  from w obtain n where n: "ffsll (xmap cd) = Suc n" by (simp add: ffsll_def)
  have "unat (xmap cd1) = unat (xmap cd) div 2 ^ Suc n"
    unfolding x n by (subst unat_drop_bit_eq) (simp only: drop_bit_eq_div)
  also have "\<dots> < unat (xmap cd)"
  proof (rule div_less_dividend)
    show "1 < (2 :: nat) ^ Suc n" by (rule one_less_power) simp_all
    show "0 < unat (xmap cd)" by (rule pos)
  qed
  finally show "((f, cd1, x2), (f, cd, st)) \<in> measure (\<lambda>(f, cd, st). unat (xmap cd))"
    by simp
qed

declare collide_bm.simps [simp del]

fun feed_bm :: "nat \<Rightarrow> u32 list \<Rightarrow> collisiondata_bm \<Rightarrow> (bool \<times> u32 list) list option" where
  "feed_bm k [] cd = Some []"
| "feed_bm k (xh # xhs) cd =
     (case addslot_bm (of_nat k) xh cd of
        None \<Rightarrow> None
      | Some (ok, cd1) \<Rightarrow>
          (case (if ok then collide_bm (\<lambda>s acc. Some (acc @ [s])) cd1 [] else Some (cd1, [])) of
             None \<Rightarrow> None
           | Some (cd2, ps) \<Rightarrow>
               (case feed_bm (k + 1) xhs cd2 of
                  None \<Rightarrow> None
                | Some res \<Rightarrow> Some ((ok, ps) # res))))"

text \<open>
  The state of the bitmap form after the slots \<open>0, 1, \<dots>\<close> carried the rest values
  \<open>hs\<close>: bit \<open>n\<close> of the mask of \<open>x\<close> is set exactly when slot \<open>n\<close> carried \<open>x\<close>.
\<close>

definition bm_inv :: "u32 list \<Rightarrow> collisiondata_bm \<Rightarrow> bool" where
  "bm_inv hs cd \<longleftrightarrow>
     (\<forall>x n. unat x < NRESTS \<longrightarrow>
        bit (xhashmap cd (unat x)) n = (n < length hs \<and> hs ! n = x))"

definition bm_junk :: collisiondata_bm where
  "bm_junk = \<lparr>xhashmap = (\<lambda>_. 12345), xmap = 77, s0 = 4\<rparr>"

section \<open>Reconstructing the index list\<close>

text \<open>
  The index functions write through a pointer into an array of indices. The array is a
  function from positions to indices and the pointer is a position \<open>off\<close> in it:
  \<^verbatim>\<open>indices[i]\<close> is \<open>indices (off + i)\<close>. That the walk stays inside the
  \<open>PROOFSIZE\<close> entries of a proof is proved below, not assumed.
\<close>

definition orderindices :: "(nat \<Rightarrow> u32) \<Rightarrow> nat \<Rightarrow> nat \<Rightarrow> (nat \<Rightarrow> u32)" where
  "orderindices indices off sz =
     (if indices off > indices (off + sz) then
        fold (\<lambda>i m. (let tmp = m (off + i)
                      in m(off + i := m (off + sz + i), off + sz + i := tmp)))
          [0..<sz] indices
      else indices)"

text \<open>
  listindices0 and listindices1 call each other, the layer going down by one each time.
  listindices1 has no test for layer 0: there \<^verbatim>\<open>--r\<close> wraps around and
  \<^verbatim>\<open>hta.trees[r]\<close> is read far outside the array (the source assumes an odd \<open>WK\<close>).
\<close>

fun listindices0 :: "params \<Rightarrow> htalloc \<Rightarrow> nat \<Rightarrow> tree \<Rightarrow> (nat \<Rightarrow> u32) \<Rightarrow> nat \<Rightarrow> (nat \<Rightarrow> u32) option"
  and listindices1 :: "params \<Rightarrow> htalloc \<Rightarrow> nat \<Rightarrow> tree \<Rightarrow> (nat \<Rightarrow> u32) \<Rightarrow> nat \<Rightarrow> (nat \<Rightarrow> u32) option"
where
  "listindices0 P h 0 t indices off = Some (indices(off := getindex t))"
| "listindices0 P h (Suc r) t indices off =
     (case trees_get P h r (unat (bucketid t)) (unat (slotid0 t)) of
        None \<Rightarrow> None
      | Some a \<Rightarrow>
     (case trees_get P h r (unat (bucketid t)) (unat (slotid1 t)) of
        None \<Rightarrow> None
      | Some b \<Rightarrow>
     (case listindices1 P h r (attr a) indices off of
        None \<Rightarrow> None
      | Some m1 \<Rightarrow>
     (case listindices1 P h r (attr b) m1 (off + 2 ^ r) of
        None \<Rightarrow> None
      | Some m2 \<Rightarrow> Some (orderindices m2 off (2 ^ r))))))"
| "listindices1 P h 0 t indices off = None"
| "listindices1 P h (Suc r) t indices off =
     (case trees_get P h r (unat (bucketid t)) (unat (slotid0 t)) of
        None \<Rightarrow> None
      | Some a \<Rightarrow>
     (case trees_get P h r (unat (bucketid t)) (unat (slotid1 t)) of
        None \<Rightarrow> None
      | Some b \<Rightarrow>
     (case listindices0 P h r (attr a) indices off of
        None \<Rightarrow> None
      | Some m1 \<Rightarrow>
     (case listindices0 P h r (attr b) m1 (off + 2 ^ r) of
        None \<Rightarrow> None
      | Some m2 \<Rightarrow> Some (orderindices m2 off (2 ^ r))))))"

text \<open>
  Modelled from the spec: candidate sorts the \<open>PROOFSIZE\<close> indices. The source calls
  the C library's qsort with the comparison compu32 of equi.h, which is not in the
  sources; the model sorts unsigned 32-bit values in ascending order.
\<close>

definition qsort_u32 :: "u32 list \<Rightarrow> u32 list" where
  "qsort_u32 xs = sort xs"

text \<open>
  candidate. \<open>prf\<close> is a local array that the first walk fills; the loop after qsort
  returns at the first \<open>i\<close> with \<^verbatim>\<open>prf[i] <= prf[i-1]\<close>. The second walk writes
  into \<open>sols[soli]\<close>.
\<close>

definition candidate :: "params \<Rightarrow> tree \<Rightarrow> equi \<Rightarrow> equi option" where
  "candidate P t st =
     (case listindices1 P (hta st) (WK P) t (\<lambda>_. 0) 0 of
        None \<Rightarrow> None
      | Some prf0 \<Rightarrow>
          (let prf = qsort_u32 (map prf0 [0..<PROOFSIZE P])
           in if list_ex (\<lambda>i. prf ! i \<le> prf ! (i - 1)) [1..<PROOFSIZE P] then Some st
              else
                (let soli = nsols st;
                     st1 = st\<lparr>nsols := nsols st + 1\<rparr>
                 in if unat soli < MAXSOLS then
                      (case listindices1 P (hta st) (WK P) t (sols st (unat soli)) 0 of
                         None \<Rightarrow> None
                       | Some s \<Rightarrow> Some (st1\<lparr>sols := (sols st)(unat soli := s)\<rparr>))
                    else Some st1)))"

text \<open>
  The indices that a walk from layer \<open>r\<close> produces, as a list: the leaves of the tree in
  the order in which they end up in the array.
\<close>

fun leaves0 :: "params \<Rightarrow> htalloc \<Rightarrow> nat \<Rightarrow> tree \<Rightarrow> u32 list option"
  and leaves1 :: "params \<Rightarrow> htalloc \<Rightarrow> nat \<Rightarrow> tree \<Rightarrow> u32 list option"
where
  "leaves0 P h 0 t = Some [getindex t]"
| "leaves0 P h (Suc r) t =
     (case trees_get P h r (unat (bucketid t)) (unat (slotid0 t)) of
        None \<Rightarrow> None
      | Some a \<Rightarrow>
     (case trees_get P h r (unat (bucketid t)) (unat (slotid1 t)) of
        None \<Rightarrow> None
      | Some b \<Rightarrow>
     (case leaves1 P h r (attr a) of
        None \<Rightarrow> None
      | Some xs \<Rightarrow>
     (case leaves1 P h r (attr b) of
        None \<Rightarrow> None
      | Some ys \<Rightarrow> Some (if hd xs > hd ys then ys @ xs else xs @ ys)))))"
| "leaves1 P h 0 t = None"
| "leaves1 P h (Suc r) t =
     (case trees_get P h r (unat (bucketid t)) (unat (slotid0 t)) of
        None \<Rightarrow> None
      | Some a \<Rightarrow>
     (case trees_get P h r (unat (bucketid t)) (unat (slotid1 t)) of
        None \<Rightarrow> None
      | Some b \<Rightarrow>
     (case leaves0 P h r (attr a) of
        None \<Rightarrow> None
      | Some xs \<Rightarrow>
     (case leaves0 P h r (attr b) of
        None \<Rightarrow> None
      | Some ys \<Rightarrow> Some (if hd xs > hd ys then ys @ xs else xs @ ys)))))"

text \<open>Writing a list into an array at a position.\<close>

definition store :: "(nat \<Rightarrow> u32) \<Rightarrow> nat \<Rightarrow> u32 list \<Rightarrow> (nat \<Rightarrow> u32)" where
  "store m off xs = (\<lambda>i. if off \<le> i \<and> i < off + length xs then xs ! (i - off) else m i)"

text \<open>
  The order of a list of \<open>2^r\<close> leaves that the walk leaves behind: at every internal
  node, the first leaf of the left half is at most the first leaf of the right half.
\<close>

fun tree_ordered :: "nat \<Rightarrow> u32 list \<Rightarrow> bool" where
  "tree_ordered 0 xs = True"
| "tree_ordered (Suc r) xs =
     (hd xs \<le> xs ! (2 ^ r) \<and> tree_ordered r (take (2 ^ r) xs) \<and> tree_ordered r (drop (2 ^ r) xs))"

text \<open>
  An arena for the build with N = 80 and K = 3 that holds one tree of eight leaves, with
  the slots in the order in which one thread of the digit functions fills them. The leaves
  1 to 8 are in bucket 0 of layer 0, in the order of their indices, each with what digit0
  left in \<open>slotid1\<close>. The four nodes of layer 1 are in bucket 0 of layer 1, in the order
  in which digitodd meets the pairs: by the later slot \<open>slotid1\<close> of the pair. The two
  nodes of layer 2 are in bucket 0 of layer 2, which is bucket 1 of heap 0. \<open>top8\<close> is
  the root that digitK hands to candidate. In every node \<open>slotid0 < slotid1\<close>. The
  hashes, which the walk does not read, are left at zero.
\<close>

definition node :: "u32 \<Rightarrow> u32 \<Rightarrow> u32 \<Rightarrow> tree" where
  "node b i j = \<lparr>bucketid = b, slotid0 = i, slotid1 = j, xhash = 0\<rparr>"

definition arena8 :: htalloc where
  "arena8 = \<lparr>heap = (\<lambda>k b s.
     if k = 0 \<and> b = 0 \<and> s < 8 then
       \<lparr>attr = setindex P80 ([1, 2, 3, 4, 5, 6, 7, 8] ! s) stale_tree, hash = (\<lambda>_. 0)\<rparr>
     else if k = 1 \<and> b = 0 \<and> s < 4 then
       \<lparr>attr = [node 0 1 2, node 0 0 3, node 0 5 6, node 0 4 7] ! s, hash = (\<lambda>_. 0)\<rparr>
     else if k = 0 \<and> b = 1 \<and> s < 2 then
       \<lparr>attr = [node 0 0 1, node 0 2 3] ! s, hash = (\<lambda>_. 0)\<rparr>
     else zero_slot)\<rparr>"

definition top8 :: tree where
  "top8 = node 0 0 1"

definition st8 :: "u32 \<Rightarrow> equi" where
  "st8 n = (equi_new 1 mem_junk)\<lparr>hta := arena8, nsols := n\<rparr>"

definition st8_after :: equi where
  "st8_after = (st8 0)\<lparr>nsols := 1,
     sols := (sols (st8 0))(0 := store (sols (st8 0) 0) 0 [1, 4, 2, 3, 5, 8, 6, 7])\<rparr>"

section \<open>The digit functions\<close>

text \<open>
  The rest bits of a slot. With XINTREE they are in the tree node. Without it the source
  reads \<^verbatim>\<open>pslot->hash.bytes[prevbo]\<close>, which names a member of an array; the model
  takes the byte at \<open>prevbo\<close> of the hash, which is what the expression is meant to read.
\<close>

definition getxhash0 :: "params \<Rightarrow> htlayout \<Rightarrow> slot0 \<Rightarrow> u32" where
  "getxhash0 P htl pslot =
     (if XINTREE P then xhash (attr pslot)
      else ucast (drop_bit 4 (hash pslot (unat (prevbo htl)))))"

definition getxhash1 :: "params \<Rightarrow> htlayout \<Rightarrow> slot0 \<Rightarrow> u32" where
  "getxhash1 P htl pslot =
     (if XINTREE P then xhash (attr pslot)
      else ucast (hash pslot (unat (prevbo htl)) AND 15))"

text \<open>htlayout::equal compares word \<open>prevhashunits - 1\<close> of the two hashes.\<close>

definition htlayout_equal :: "htlayout \<Rightarrow> (nat \<Rightarrow> uchar) \<Rightarrow> (nat \<Rightarrow> uchar) \<Rightarrow> bool" where
  "htlayout_equal htl hash0 hash1 \<longleftrightarrow>
     hashword hash0 (unat (prevhashunits htl - 1)) = hashword hash1 (unat (prevhashunits htl - 1))"

text \<open>
  The comparison of all stored words, \<open>0\<close> to \<open>prevhashunits - 1\<close>. It is not in the
  source: it is what the tail-word comparison is measured against.
\<close>

definition full_equal :: "htlayout \<Rightarrow> (nat \<Rightarrow> uchar) \<Rightarrow> (nat \<Rightarrow> uchar) \<Rightarrow> bool" where
  "full_equal htl hash0 hash1 \<longleftrightarrow>
     list_all (\<lambda>i. hashword hash0 i = hashword hash1 i) [0..<unat (prevhashunits htl)]"

text \<open>memcpy of \<open>n\<close> bytes from \<open>src + soff\<close> to \<open>dst + doff\<close>.\<close>

definition memcpy :: "(nat \<Rightarrow> uchar) \<Rightarrow> nat \<Rightarrow> (nat \<Rightarrow> uchar) \<Rightarrow> nat \<Rightarrow> nat \<Rightarrow> (nat \<Rightarrow> uchar)" where
  "memcpy dst doff src soff n =
     (\<lambda>j. if doff \<le> j \<and> j < doff + n then src (soff + (j - doff)) else dst j)"

text \<open>
  The \<^verbatim>\<open>#if\<close> chain of digit0: bucket id and rest bits of the hash that starts at
  \<open>ph\<close>. Any other geometry is \<^verbatim>\<open>#error not implemented\<close>: no such program exists.
\<close>

definition digit0_bits :: "params \<Rightarrow> (nat \<Rightarrow> uchar) \<Rightarrow> (u32 \<times> u32) option" where
  "digit0_bits P ph =
     (if BUCKBITS P = 16 \<and> RESTBITS = 4 then
        Some (push_bit 8 (ucast (ph 0)) OR ucast (ph 1), drop_bit 4 (ucast (ph 2)))
      else if BUCKBITS P = 20 \<and> RESTBITS = 4 then
        Some (push_bit 4 (push_bit 8 (ucast (ph 0)) OR ucast (ph 1)) OR drop_bit 4 (ucast (ph 2)),
              ucast (ph 2) AND 15)
      else if BUCKBITS P = 12 \<and> RESTBITS = 4 then
        Some (push_bit 4 (ucast (ph 0)) OR drop_bit 4 (ucast (ph 1)), ucast (ph 1) AND 15)
      else None)"

text \<open>
  The geometries that this chain names. For any other the build stops at
  \<^verbatim>\<open>#error not implemented\<close>, in digit0 and again in digitodd and digiteven.
\<close>

definition implemented :: "params \<Rightarrow> bool" where
  "implemented P \<longleftrightarrow> (BUCKBITS P = 16 \<or> BUCKBITS P = 20 \<or> BUCKBITS P = 12) \<and> RESTBITS = 4"

text \<open>
  The body of the inner loop of digit0, for hash \<open>i\<close> of the block whose Blake2b output
  is \<open>hashv\<close>. The local \<open>leaf\<close> is not initialised and \<open>slotid1\<close> is never
  assigned: the node that is stored keeps in that field what the local happened to hold,
  the parameter \<open>leaf0\<close>.
\<close>

definition digit0_hash :: "params \<Rightarrow> tree \<Rightarrow> htlayout \<Rightarrow> u32 \<Rightarrow> nat \<Rightarrow> (nat \<Rightarrow> uchar) \<Rightarrow> nat \<Rightarrow> equi \<Rightarrow> equi option" where
  "digit0_hash P leaf0 htl hashbytes block hashv i st =
     (let ph = (\<lambda>k. hashv (i * WN P div 8 + k)) in
      case digit0_bits P ph of
        None \<Rightarrow> None
      | Some (bid, xh) \<Rightarrow>
          (case getslot P 0 (unat bid) st of
             None \<Rightarrow> None
           | Some (sl, st1) \<Rightarrow>
               if NSLOTS \<le> unat sl then Some (st1\<lparr>bfull := bfull st1 + 1\<rparr>)
               else
                 (let leaf = setindex P (of_nat block * of_nat (HASHESPERBLAKE P) + of_nat i)
                               leaf0;
                      leaf' = (if XINTREE P then leaf\<lparr>xhash := take_bit RESTBITS xh\<rparr> else leaf)
                  in case trees_get P (hta st1) 0 (unat bid) (unat sl) of
                       None \<Rightarrow> None
                     | Some s \<Rightarrow>
                         map_option (\<lambda>h. st1\<lparr>hta := h\<rparr>)
                           (trees_put P 0 (unat bid) (unat sl)
                              (s\<lparr>attr := leaf',
                                 hash := memcpy (hash s) (unat (nextbo htl)) ph
                                           (WN P div 8 - unat hashbytes) (unat hashbytes)\<rparr>)
                              (hta st1)))))"

definition digit0_block :: "params \<Rightarrow> (nat \<Rightarrow> nat \<Rightarrow> tree) \<Rightarrow> htlayout \<Rightarrow> u32 \<Rightarrow> nat \<Rightarrow> equi \<Rightarrow> equi option" where
  "digit0_block P leaf0 htl hashbytes block st =
     foldM (\<lambda>i. digit0_hash P (leaf0 block i) htl hashbytes block (blake_ctx st (of_nat block)) i)
       [0..<HASHESPERBLAKE P] st"

text \<open>
  The loop over the blocks of one thread: \<^verbatim>\<open>block += nthreads\<close> is 32-bit
  arithmetic, and with \<open>nthreads = 0\<close> the loop does not end: the function is partial.
\<close>

partial_function (option) digit0_loop :: "params \<Rightarrow> (nat \<Rightarrow> nat \<Rightarrow> tree) \<Rightarrow> htlayout \<Rightarrow> u32 \<Rightarrow> nat \<Rightarrow> equi \<Rightarrow> equi option" where
  "digit0_loop P leaf0 htl hashbytes block st =
     (if block < NBLOCKS P then
        (case digit0_block P leaf0 htl hashbytes block st of
           None \<Rightarrow> None
         | Some st' \<Rightarrow>
             digit0_loop P leaf0 htl hashbytes ((block + unat (nthreads st')) mod 2 ^ 32) st')
      else Some st)"

text \<open>
  digit0 for thread \<open>tid\<close>; \<open>leaf0 block i\<close> is what the local \<open>leaf\<close> holds when it is
  declared for hash \<open>i\<close> of block \<open>block\<close>.
\<close>

definition digit0 :: "params \<Rightarrow> (nat \<Rightarrow> nat \<Rightarrow> tree) \<Rightarrow> u32 \<Rightarrow> equi \<Rightarrow> equi option" where
  "digit0 P leaf0 tid st = digit0_loop P leaf0 (htlayout_init P 0) (hashsize P 0) (unat tid) st"

text \<open>
  A hash function for the production parameters whose 50 output bytes are the same for
  every block: all zero except byte 35, which is byte 10 of the second hash of the block.
  All hashes fall into bucket 0 with rest bits 0; the two hashes of a block agree in their
  last four bytes and differ in byte 10.
\<close>

definition blake_cex :: "u32 \<Rightarrow> nat \<Rightarrow> uchar" where
  "blake_cex b k = (if k = 35 then 1 else 0)"

definition st_cex :: equi where
  "st_cex = setnonce blake_cex (equi_new 1 mem_junk)"

definition st_cex_after0 :: equi where
  "st_cex_after0 = the (digit0 P200 (\<lambda>_ _. stale_tree) 0 st_cex)"

text \<open>
  What holds of the run of digit0 on \<open>st_cex\<close> after \<open>c\<close> hashes: all of them went to
  bucket 0, slots 0 and 1 hold the two hashes of block 0, and the slots from \<open>c\<close> on still
  hold the zeros of calloc.
\<close>

definition cex_inv :: "nat \<Rightarrow> equi \<Rightarrow> bool" where
  "cex_inv c st \<longleftrightarrow>
     nthreads st = 1 \<and> blake_ctx st = blake_cex \<and> nslots st 0 0 = of_nat c \<and>
     (1 \<le> c \<longrightarrow> xhash (attr (heap (hta st) 0 0 0)) = 0
                \<and> hash (heap (hta st) 0 0 0) = (\<lambda>_. 0)) \<and>
     (2 \<le> c \<longrightarrow> xhash (attr (heap (hta st) 0 0 1)) = 0
                \<and> hash (heap (hta st) 0 0 1) = (\<lambda>j. if j = 9 then 1 else 0)) \<and>
     (\<forall>s. c \<le> s \<longrightarrow> hash (heap (hta st) 0 0 s) = (\<lambda>_. 0))"

text \<open>
  The \<^verbatim>\<open>#if\<close> chains of digitodd and digiteven: the bucket id and the rest bits of
  the exclusive-or of two hashes. Only the branch for 16 bucket bits with XINTREE is a
  program: the other branches are \<^verbatim>\<open>#error\<close> or name \<open>hash0\<close> and \<open>hash1\<close>,
  which are not declared there.
\<close>

definition digitodd_bits :: "params \<Rightarrow> htlayout \<Rightarrow> (nat \<Rightarrow> uchar) \<Rightarrow> (nat \<Rightarrow> uchar) \<Rightarrow> (u32 \<times> u32) option" where
  "digitodd_bits P htl h0 h1 =
     (if BUCKBITS P = 16 \<and> RESTBITS = 4 \<and> XINTREE P then
        (let b0 = unat (prevbo htl); b1 = unat (prevbo htl + 1); b2 = unat (prevbo htl + 2);
             xb = push_bit 8 (ucast (h0 b0 XOR h1 b0)) OR ucast (h0 b1 XOR h1 b1);
             xh = ucast (h0 b2 XOR h1 b2)
         in Some (push_bit 4 (xb AND 4095) OR drop_bit 4 xh, xh AND 15))
      else None)"

definition digiteven_bits :: "params \<Rightarrow> htlayout \<Rightarrow> (nat \<Rightarrow> uchar) \<Rightarrow> (nat \<Rightarrow> uchar) \<Rightarrow> (u32 \<times> u32) option" where
  "digiteven_bits P htl h0 h1 =
     (if BUCKBITS P = 16 \<and> RESTBITS = 4 \<and> XINTREE P then
        (let b0 = unat (prevbo htl); b1 = unat (prevbo htl + 1); b2 = unat (prevbo htl + 2)
         in Some (push_bit 8 (ucast (h0 b0 XOR h1 b0)) OR ucast (h0 b1 XOR h1 b1),
                  drop_bit 4 (ucast (h0 b2 XOR h1 b2))))
      else None)"

text \<open>
  The loop that writes the exclusive-or of words \<open>dunits .. prevhashunits - 1\<close> of two
  hashes into words \<open>0 ..\<close> of the new slot.
\<close>

definition xor_units :: "htlayout \<Rightarrow> (nat \<Rightarrow> uchar) \<Rightarrow> (nat \<Rightarrow> uchar) \<Rightarrow> (nat \<Rightarrow> uchar) \<Rightarrow> (nat \<Rightarrow> uchar)" where
  "xor_units htl h0 h1 dst =
     fold (\<lambda>i d j.
             if 4 * (i - unat (dunits htl)) \<le> j \<and> j < 4 * (i - unat (dunits htl)) + 4
             then h0 (4 * i + (j - 4 * (i - unat (dunits htl))))
                  XOR h1 (4 * i + (j - 4 * (i - unat (dunits htl))))
             else d j)
       [unat (dunits htl)..<unat (prevhashunits htl)] dst"

text \<open>
  digitodd and digiteven are the same text but for the function that reads the rest bits
  (getxhash0 or getxhash1) and the \<^verbatim>\<open>#if\<close> chain; the model writes the common text
  once, with these two as the parameters \<open>gx\<close> and \<open>bits\<close>.

  First the end of the body of the collision loop: the slot reservation in the bucket of
  the exclusive-or, and the store of the new node and hash. Every field of the local
  \<open>xort\<close> is assigned before it is stored (\<open>xhash\<close> is a field only with XINTREE), so
  what the local held before does not matter.
\<close>

definition store_xor :: "params \<Rightarrow> htlayout \<Rightarrow> nat \<Rightarrow> nat \<Rightarrow> u32 \<Rightarrow> u32 \<Rightarrow> u32 \<Rightarrow> u32 \<Rightarrow> slot0 \<Rightarrow> slot0 \<Rightarrow> equi \<Rightarrow> equi option" where
  "store_xor P htl r bid sl0 sl1 xorbucketid xh pslot0 pslot1 st =
     (case getslot P r (unat xorbucketid) st of
        None \<Rightarrow> None
      | Some (xorslot, st1) \<Rightarrow>
          if NSLOTS \<le> unat xorslot then Some (st1\<lparr>bfull := bfull st1 + 1\<rparr>)
          else
            (let xort = zero_tree\<lparr>bucketid := take_bit (BUCKBITS P) (of_nat bid),
                                  slotid0 := take_bit SLOTBITS sl0,
                                  slotid1 := take_bit SLOTBITS sl1\<rparr>;
                 xort' = (if XINTREE P then xort\<lparr>xhash := take_bit RESTBITS xh\<rparr> else xort)
             in case trees_get P (hta st1) r (unat xorbucketid) (unat xorslot) of
                  None \<Rightarrow> None
                | Some xs \<Rightarrow>
                    map_option (\<lambda>h. st1\<lparr>hta := h\<rparr>)
                      (trees_put P r (unat xorbucketid) (unat xorslot)
                         (xs\<lparr>attr := xort',
                             hash := xor_units htl (hash pslot0) (hash pslot1) (hash xs)\<rparr>)
                         (hta st1))))"

text \<open>The body of the collision loop, for the partner \<open>sl0\<close> of slot \<open>sl1\<close>.\<close>

definition digit_pair :: "params \<Rightarrow> (htlayout \<Rightarrow> (nat \<Rightarrow> uchar) \<Rightarrow> (nat \<Rightarrow> uchar) \<Rightarrow> (u32 \<times> u32) option) \<Rightarrow> htlayout \<Rightarrow> nat \<Rightarrow> nat \<Rightarrow> u32 \<Rightarrow> u32 \<Rightarrow> equi \<Rightarrow> equi option" where
  "digit_pair P bits htl r bid sl1 sl0 st =
     (case trees_get P (hta st) (r - 1) bid (unat sl0) of
        None \<Rightarrow> None
      | Some pslot0 \<Rightarrow>
     (case trees_get P (hta st) (r - 1) bid (unat sl1) of
        None \<Rightarrow> None
      | Some pslot1 \<Rightarrow>
          if htlayout_equal htl (hash pslot0) (hash pslot1) then Some (st\<lparr>hfull := hfull st + 1\<rparr>)
          else
            (case bits htl (hash pslot0) (hash pslot1) of
               None \<Rightarrow> None
             | Some (xorbucketid, xh) \<Rightarrow>
                 store_xor P htl r bid sl0 sl1 xorbucketid xh pslot0 pslot1 st)))"

text \<open>The body of the loop over the slots \<open>s1\<close> of a bucket.\<close>

definition digit_slot :: "params \<Rightarrow> (htlayout \<Rightarrow> slot0 \<Rightarrow> u32) \<Rightarrow> (htlayout \<Rightarrow> (nat \<Rightarrow> uchar) \<Rightarrow> (nat \<Rightarrow> uchar) \<Rightarrow> (u32 \<times> u32) option) \<Rightarrow> htlayout \<Rightarrow> nat \<Rightarrow> nat \<Rightarrow> nat \<Rightarrow> collisiondata \<times> equi \<Rightarrow> (collisiondata \<times> equi) option" where
  "digit_slot P gx bits htl r bid s1 cs =
     (case trees_get P (hta (snd cs)) (r - 1) bid s1 of
        None \<Rightarrow> None
      | Some pslot1 \<Rightarrow>
          (case addslot (of_nat s1) (gx htl pslot1) (fst cs) of
             None \<Rightarrow> None
           | Some (ok, cd1) \<Rightarrow>
               if \<not> ok then Some (cd1, (snd cs)\<lparr>xfull := xfull (snd cs) + 1\<rparr>)
               else collide (digit_pair P bits htl r bid (of_nat s1)) cd1 (snd cs)))"

text \<open>
  The body of the loop over the buckets: clear the finder, drain the counter of the
  bucket in layer \<open>r - 1\<close>, and go through its slots. For \<open>r = 0\<close> the source would index
  \<open>trees\<close> with \<open>r - 1\<close> wrapped around.
\<close>

definition digit_bucket :: "params \<Rightarrow> (htlayout \<Rightarrow> slot0 \<Rightarrow> u32) \<Rightarrow> (htlayout \<Rightarrow> (nat \<Rightarrow> uchar) \<Rightarrow> (nat \<Rightarrow> uchar) \<Rightarrow> (u32 \<times> u32) option) \<Rightarrow> htlayout \<Rightarrow> nat \<Rightarrow> nat \<Rightarrow> collisiondata \<times> equi \<Rightarrow> (collisiondata \<times> equi) option" where
  "digit_bucket P gx bits htl r bid cs =
     (if r = 0 then None
      else
        (case getnslots P (r - 1) bid (snd cs) of
           None \<Rightarrow> None
         | Some (bsize, st1) \<Rightarrow>
             foldM (digit_slot P gx bits htl r bid) [0..<unat bsize] (clear (fst cs), st1)))"

partial_function (option) digit_loop :: "params \<Rightarrow> (htlayout \<Rightarrow> slot0 \<Rightarrow> u32) \<Rightarrow> (htlayout \<Rightarrow> (nat \<Rightarrow> uchar) \<Rightarrow> (nat \<Rightarrow> uchar) \<Rightarrow> (u32 \<times> u32) option) \<Rightarrow> htlayout \<Rightarrow> nat \<Rightarrow> nat \<Rightarrow> collisiondata \<times> equi \<Rightarrow> (collisiondata \<times> equi) option" where
  "digit_loop P gx bits htl r bid cs =
     (if bid < NBUCKETS P then
        (case digit_bucket P gx bits htl r bid cs of
           None \<Rightarrow> None
         | Some cs' \<Rightarrow>
             digit_loop P gx bits htl r ((bid + unat (nthreads (snd cs'))) mod 2 ^ 32) cs')
      else Some cs)"

text \<open>
  The two digit functions. \<open>cd\<close> is the local finder, which the source does not
  initialise: its first contents are a parameter.
\<close>

definition digitodd :: "params \<Rightarrow> nat \<Rightarrow> u32 \<Rightarrow> collisiondata \<Rightarrow> equi \<Rightarrow> equi option" where
  "digitodd P r tid cd st =
     map_option snd
       (digit_loop P (getxhash0 P) (digitodd_bits P) (htlayout_init P (of_nat r)) r (unat tid)
          (cd, st))"

definition digiteven :: "params \<Rightarrow> nat \<Rightarrow> u32 \<Rightarrow> collisiondata \<Rightarrow> equi \<Rightarrow> equi option" where
  "digiteven P r tid cd st =
     map_option snd
       (digit_loop P (getxhash1 P) (digiteven_bits P) (htlayout_init P (of_nat r)) r (unat tid)
          (cd, st))"

text \<open>
  digitK: the same traversal of layer \<open>WK - 1\<close>; a rejected slot is skipped without a
  count, and a pair whose tail words are equal is handed to candidate. The local \<open>xort\<close>
  is not initialised and its \<open>xhash\<close> is never assigned: the root keeps in that field what
  the local happened to hold, \<open>xort0 bid sl1 sl0\<close>.
\<close>

definition digitK_pair :: "params \<Rightarrow> (nat \<Rightarrow> u32 \<Rightarrow> u32 \<Rightarrow> tree) \<Rightarrow> htlayout \<Rightarrow> nat \<Rightarrow> u32 \<Rightarrow> u32 \<Rightarrow> equi \<Rightarrow> equi option" where
  "digitK_pair P xort0 htl bid sl1 sl0 st =
     (case trees_get P (hta st) (WK P - 1) bid (unat sl0) of
        None \<Rightarrow> None
      | Some pslot0 \<Rightarrow>
     (case trees_get P (hta st) (WK P - 1) bid (unat sl1) of
        None \<Rightarrow> None
      | Some pslot1 \<Rightarrow>
          if htlayout_equal htl (hash pslot0) (hash pslot1) then
            candidate P ((xort0 bid sl1 sl0)\<lparr>bucketid := take_bit (BUCKBITS P) (of_nat bid),
                                            slotid0 := take_bit SLOTBITS sl0,
                                            slotid1 := take_bit SLOTBITS sl1\<rparr>) st
          else Some st))"

definition digitK_slot :: "params \<Rightarrow> (nat \<Rightarrow> u32 \<Rightarrow> u32 \<Rightarrow> tree) \<Rightarrow> htlayout \<Rightarrow> nat \<Rightarrow> nat \<Rightarrow> collisiondata \<times> equi \<Rightarrow> (collisiondata \<times> equi) option" where
  "digitK_slot P xort0 htl bid s1 cs =
     (case trees_get P (hta (snd cs)) (WK P - 1) bid s1 of
        None \<Rightarrow> None
      | Some pslot1 \<Rightarrow>
          (case addslot (of_nat s1) (getxhash0 P htl pslot1) (fst cs) of
             None \<Rightarrow> None
           | Some (ok, cd1) \<Rightarrow>
               if \<not> ok then Some (cd1, snd cs)
               else collide (digitK_pair P xort0 htl bid (of_nat s1)) cd1 (snd cs)))"

definition digitK_bucket :: "params \<Rightarrow> (nat \<Rightarrow> u32 \<Rightarrow> u32 \<Rightarrow> tree) \<Rightarrow> htlayout \<Rightarrow> nat \<Rightarrow> collisiondata \<times> equi \<Rightarrow> (collisiondata \<times> equi) option" where
  "digitK_bucket P xort0 htl bid cs =
     (if WK P = 0 then None
      else
        (case getnslots P (WK P - 1) bid (snd cs) of
           None \<Rightarrow> None
         | Some (bsize, st1) \<Rightarrow>
             foldM (digitK_slot P xort0 htl bid) [0..<unat bsize] (clear (fst cs), st1)))"

partial_function (option) digitK_loop :: "params \<Rightarrow> (nat \<Rightarrow> u32 \<Rightarrow> u32 \<Rightarrow> tree) \<Rightarrow> htlayout \<Rightarrow> nat \<Rightarrow> collisiondata \<times> equi \<Rightarrow> (collisiondata \<times> equi) option" where
  "digitK_loop P xort0 htl bid cs =
     (if bid < NBUCKETS P then
        (case digitK_bucket P xort0 htl bid cs of
           None \<Rightarrow> None
         | Some cs' \<Rightarrow>
             digitK_loop P xort0 htl ((bid + unat (nthreads (snd cs'))) mod 2 ^ 32) cs')
      else Some cs)"

definition digitK :: "params \<Rightarrow> (nat \<Rightarrow> u32 \<Rightarrow> u32 \<Rightarrow> tree) \<Rightarrow> u32 \<Rightarrow> collisiondata \<Rightarrow> equi \<Rightarrow> equi option" where
  "digitK P xort0 tid cd st =
     map_option snd (digitK_loop P xort0 (htlayout_init P (of_nat (WK P))) (unat tid) (cd, st))"

text \<open>
  The state after a dropped reservation in bucket \<open>b\<close> of layer \<open>r\<close>: the counter of
  the bucket and \<open>bfull\<close> are one more than before, and nothing else differs.
\<close>

definition dropped :: "nat \<Rightarrow> nat \<Rightarrow> equi \<Rightarrow> equi" where
  "dropped r b st =
     st\<lparr>nslots := (nslots st)(r mod 2 := (nslots st (r mod 2))(b := nslots st (r mod 2) b + 1)),
        bfull := bfull st + 1\<rparr>"

text \<open>
  A state whose buckets all count 64 reservations, with two slots per bucket whose hashes
  differ in the tail words of layers 1 and 2.
\<close>

definition st_full :: equi where
  "st_full = (equi_new 1 mem_junk)
     \<lparr>hta := \<lparr>heap = (\<lambda>k b s. if s = 1 then zero_slot\<lparr>hash := (\<lambda>j. if j = 19 \<or> j = 23 then 1 else 0)\<rparr>
                              else zero_slot)\<rparr>,
      nslots := (\<lambda>_ _. 64)\<rparr>"

section \<open>Properties\<close>

subsection \<open>Tree nodes\<close>

lemma SLOTMASK_mask: "SLOTMASK = mask SLOTBITS"
  by (simp add: SLOTMASK_def NSLOTS_def SLOTBITS_def RESTBITS_def mask_eq_exp_minus_1)

lemma getindex_setindex_take_bit:
  "getindex (setindex P idx t) = take_bit (BUCKBITS P + SLOTBITS) idx"
  unfolding getindex_def setindex_def Let_def SLOTMASK_mask
  by (rule bit_word_eqI) (auto simp add: bit_simps)

lemma take_bit_unat_self:
  fixes w :: "'a::len word"
  assumes "unat w < 2 ^ k"
  shows "take_bit k w = w"
proof -
  have "unat (take_bit k w) = unat w"
    using assms by (simp add: unsigned_take_bit_eq take_bit_nat_eq_self)
  then show ?thesis by (simp add: word_unat_eq_iff)
qed

text \<open>
  C7. For every 32-bit index \<open>idx\<close> below \<open>2^(BUCKBITS+SLOTBITS)\<close>, setindex followed by
  getindex returns \<open>idx\<close>, where getindex is \<open>(bucketid << SLOTBITS) | slotid0\<close>.
\<close>

theorem setindex_getindex_roundtrip:
  assumes "unat idx < 2 ^ (BUCKBITS P + SLOTBITS)"
  shows "getindex (setindex P idx t) = idx
     \<and> getindex (setindex P idx t)
         = push_bit SLOTBITS (bucketid (setindex P idx t)) OR slotid0 (setindex P idx t)"
proof -
  have "getindex (setindex P idx t) = idx"
    unfolding getindex_setindex_take_bit using assms by (rule take_bit_unat_self)
  then show ?thesis by (simp add: getindex_def)
qed

theorem setindex_getindex_roundtrip_witness:
  "unat (2097151 :: u32) < 2 ^ (BUCKBITS P200 + SLOTBITS)
   \<and> getindex (setindex P200 2097151 zero_tree) = 2097151
   \<and> bucketid (setindex P200 2097151 zero_tree) = 32767
   \<and> slotid0 (setindex P200 2097151 zero_tree) = 63"
proof -
  have h: "unat (2097151 :: u32) < 2 ^ (BUCKBITS P200 + SLOTBITS)"
    by (simp add: BUCKBITS_def DIGITBITS_def P200_def SLOTBITS_def RESTBITS_def)
  have "bucketid (setindex P200 2097151 zero_tree) = 32767"
    by (simp add: setindex_def BUCKBITS_def DIGITBITS_def P200_def SLOTBITS_def RESTBITS_def
        Let_def drop_bit_eq_div take_bit_eq_mod)
  moreover have "slotid0 (setindex P200 2097151 zero_tree) = 63"
    by (simp add: setindex_def SLOTMASK_def NSLOTS_def SLOTBITS_def RESTBITS_def Let_def
        take_bit_eq_mod)
  ultimately show ?thesis
    using h setindex_getindex_roundtrip [OF h, of zero_tree] by simp
qed

subsection \<open>The layout descriptor\<close>

lemma unat_of_nat_u32: "x < 2 ^ 32 \<Longrightarrow> unat (of_nat x :: u32) = x"
  by (simp add: unat_of_nat)

lemma unat_add_div:
  fixes w :: u32
  assumes "unat w + a < 2 ^ 32" "unat b = c"
  shows "unat ((w + of_nat a) div b) = (unat w + a) div c"
proof -
  have "w + of_nat a = of_nat (unat w + a)" by simp
  then have "unat (w + of_nat a) = unat w + a"
    using assms(1) unat_of_nat_u32 by metis
  then show ?thesis using assms by (simp add: unat_div)
qed

lemma hashbits_nat:
  fixes r :: u32
  assumes le: "(unat r + 1) * D \<le> N" and N: "N < 2 ^ 32"
  shows "unat (of_nat N - (r + 1) * of_nat D :: u32) = N - (unat r + 1) * D"
proof -
  have "(r + 1) * of_nat D = (of_nat ((unat r + 1) * D) :: u32)"
    by (simp add: algebra_simps)
  then have "(of_nat N - (r + 1) * of_nat D :: u32) = of_nat (N - (unat r + 1) * D)"
    using le by (simp only: of_nat_diff)
  moreover have "N - (unat r + 1) * D < 2 ^ 32" using N by arith
  ultimately show ?thesis by (simp only: unat_of_nat_u32)
qed

lemma unat_hashsize:
  assumes le: "(unat r + 1) * DIGITBITS P \<le> WN P" and N: "WN P < 2 ^ 32"
    and D: "16 \<le> DIGITBITS P"
  shows "unat (hashsize P r) = (hashbits_n P (unat r) + 7) div 8"
proof -
  let ?w = "of_nat (WN P) - (r + 1) * of_nat (DIGITBITS P) :: u32"
  have w: "unat ?w = WN P - (unat r + 1) * DIGITBITS P"
    using le N by (rule hashbits_nat)
  have small: "unat ?w + 11 < 2 ^ 32"
    using w le N D by simp
  show ?thesis
  proof (cases "XINTREE P")
    case True
    have "unat ((?w + of_nat 7) div 8) = (unat ?w + 7) div 8"
      using small by (intro unat_add_div) simp_all
    then show ?thesis using True w by (simp add: hashsize_def hashbits_n_def)
  next
    case False
    have "unat ((?w + of_nat 11) div 8) = (unat ?w + 11) div 8"
      using small by (intro unat_add_div) simp_all
    then show ?thesis
      using False w by (simp add: hashsize_def hashbits_n_def RESTBITS_def add.assoc)
  qed
qed

lemma unat_hashwords:
  assumes "unat b + 3 < 2 ^ 32"
  shows "unat (hashwords b) = (unat b + 3) div 4"
proof -
  have "unat ((b + of_nat 3) div 4) = (unat b + 3) div 4"
    using assms by (intro unat_add_div) simp_all
  then show ?thesis by (simp add: hashwords_def)
qed

lemma words_step:
  fixes h :: nat
  assumes "d \<le> 32"
  shows "((h + 7) div 8 + 3) div 4 \<le> ((h + d + 7) div 8 + 3) div 4 \<and>
         ((h + d + 7) div 8 + 3) div 4 \<le> ((h + 7) div 8 + 3) div 4 + 1"
  using assms by arith

lemma digits_fit:
  assumes "k \<le> WK P"
  shows "(k + 1) * DIGITBITS P \<le> WN P"
proof -
  have "(k + 1) * DIGITBITS P \<le> (WK P + 1) * DIGITBITS P" using assms by simp
  also have "\<dots> \<le> WN P"
    unfolding DIGITBITS_def by (metis div_times_less_eq_dividend mult.commute)
  finally show ?thesis .
qed

lemma unat_hashunits:
  assumes D: "16 \<le> DIGITBITS P" and W: "WN P < 2 ^ 32"
    and r: "1 \<le> unat r" "unat r \<le> WK P"
  shows "unat (hashwords (hashsize P r)) = ((hashbits_n P (unat r) + 7) div 8 + 3) div 4"
    and "unat (hashwords (hashsize P (r - 1)))
      = ((hashbits_n P (unat r) + DIGITBITS P + 7) div 8 + 3) div 4"
proof -
  have le: "(unat r + 1) * DIGITBITS P \<le> WN P" using r(2) by (rule digits_fit)
  have r0: "r \<noteq> 0" using r by (auto simp: unat_eq_0)
  have r1: "unat (r - 1) = unat r - 1" by (simp add: unat_minus_one r0)
  have le': "(unat (r - 1) + 1) * DIGITBITS P \<le> WN P"
    using le r r1 by (simp add: algebra_simps)
  have hn: "unat (hashsize P r) = (hashbits_n P (unat r) + 7) div 8"
    using le W D by (rule unat_hashsize)
  have hp: "unat (hashsize P (r - 1)) = (hashbits_n P (unat r - 1) + 7) div 8"
    using unat_hashsize [OF le' W D] r1 by simp
  have rel: "hashbits_n P (unat r - 1) = hashbits_n P (unat r) + DIGITBITS P"
    using le r by (simp add: hashbits_n_def algebra_simps)
  have "1 * DIGITBITS P \<le> unat r * DIGITBITS P"
    using r(1) by (rule mult_le_mono1)
  then have rd: "16 \<le> unat r * DIGITBITS P"
    using D by (metis nat_mult_1 order_trans)
  have "hashbits_n P (unat r - 1) \<le> WN P - unat r * DIGITBITS P + 4"
    using r(1) by (simp add: hashbits_n_def RESTBITS_def)
  moreover have "WN P < 4294967296" using W by simp
  ultimately have "hashbits_n P (unat r - 1) + 7 < 4294967296"
    using rd by linarith
  then have bn: "hashbits_n P (unat r - 1) + 7 < 2 ^ 32" by simp
  show "unat (hashwords (hashsize P r)) = ((hashbits_n P (unat r) + 7) div 8 + 3) div 4"
    using hn bn rel by (subst unat_hashwords) simp_all
  show "unat (hashwords (hashsize P (r - 1)))
      = ((hashbits_n P (unat r) + DIGITBITS P + 7) div 8 + 3) div 4"
    using hp bn rel by (subst unat_hashwords) simp_all
qed

lemma hashunits_step:
  assumes D: "16 \<le> DIGITBITS P" "DIGITBITS P \<le> 32" and W: "WN P < 2 ^ 32"
    and r: "1 \<le> unat r" "unat r \<le> WK P"
  shows "unat (hashwords (hashsize P r)) \<le> unat (hashwords (hashsize P (r - 1)))"
    and "unat (hashwords (hashsize P (r - 1))) \<le> unat (hashwords (hashsize P r)) + 1"
  using words_step [OF D(2), of "hashbits_n P (unat r)"] unat_hashunits [OF D(1) W r]
  by simp_all

lemma prevhashunits_pos:
  assumes D: "16 \<le> DIGITBITS P" and W: "WN P < 2 ^ 32"
    and r: "1 \<le> unat r" "unat r \<le> WK P"
  shows "1 \<le> unat (prevhashunits (htlayout_init P r))"
proof -
  have r0: "r \<noteq> 0" using r by (auto simp: unat_eq_0)
  have "prevhashunits (htlayout_init P r) = hashwords (hashsize P (r - 1))"
    using r0 by (simp add: htlayout_init_def Let_def)
  moreover have "1 \<le> ((hashbits_n P (unat r) + DIGITBITS P + 7) div 8 + 3) div 4"
    using D by arith
  ultimately show ?thesis using unat_hashunits(2) [OF D W r] by simp
qed

lemma digit0_bits_implemented: "digit0_bits P ph \<noteq> None \<longleftrightarrow> implemented P"
  by (auto simp: digit0_bits_def implemented_def)

lemma implemented_digitbits:
  assumes "implemented P"
  shows "DIGITBITS P = 16 \<or> DIGITBITS P = 20 \<or> DIGITBITS P = 24"
  using assms by (auto simp: implemented_def BUCKBITS_def RESTBITS_def)

text \<open>
  C8. In every geometry that the code implements (12, 16 or 20 bucket bits with 4 rest
  bits: the build of any other stops at \<^verbatim>\<open>#error\<close>), with a digit width of at least 16
  bits and \<open>N < 2^32\<close>, every layer \<open>r\<close> with \<open>1 \<le> r \<le> K\<close> has
  \<open>dunits = prevhashunits - nexthashunits\<close>, without wrap-around, and this difference is
  0 or 1.
\<close>

theorem htlayout_dunits:
  assumes B: "implemented P" and D: "16 \<le> DIGITBITS P" and W: "WN P < 2 ^ 32"
    and r: "1 \<le> unat r" "unat r \<le> WK P"
  shows "dunits (htlayout_init P r)
           = prevhashunits (htlayout_init P r) - nexthashunits (htlayout_init P r)
     \<and> unat (prevhashunits (htlayout_init P r))
           = unat (nexthashunits (htlayout_init P r)) + unat (dunits (htlayout_init P r))
     \<and> (dunits (htlayout_init P r) = 0 \<or> dunits (htlayout_init P r) = 1)"
proof -
  have D32: "DIGITBITS P \<le> 32" using implemented_digitbits [OF B] by auto
  note step = hashunits_step [OF D D32 W r]
  have r0: "r \<noteq> 0" using r by (auto simp: unat_eq_0)
  have d: "dunits (htlayout_init P r) = hashwords (hashsize P (r - 1)) - hashwords (hashsize P r)"
     "prevhashunits (htlayout_init P r) = hashwords (hashsize P (r - 1))"
     "nexthashunits (htlayout_init P r) = hashwords (hashsize P r)"
    using r0 by (simp_all add: htlayout_init_def Let_def)
  have sub: "unat (hashwords (hashsize P (r - 1)) - hashwords (hashsize P r)) =
        unat (hashwords (hashsize P (r - 1))) - unat (hashwords (hashsize P r))"
    using step(1) by (simp add: unat_sub word_le_nat_alt)
  then have "unat (dunits (htlayout_init P r)) = 0 \<or> unat (dunits (htlayout_init P r)) = 1"
    using step d(1) by auto
  then have "dunits (htlayout_init P r) = 0 \<or> dunits (htlayout_init P r) = 1"
    by (auto simp: word_unat_eq_iff)
  then show ?thesis using d sub step(1) by simp
qed

theorem htlayout_dunits_witness:
  "implemented P200 \<and> 16 \<le> DIGITBITS P200 \<and> WN P200 < 2 ^ 32
   \<and> 1 \<le> unat (1 :: u32) \<and> unat (1 :: u32) \<le> WK P200
   \<and> 1 \<le> unat (2 :: u32) \<and> unat (2 :: u32) \<le> WK P200
   \<and> prevhashunits (htlayout_init P200 1) = 6 \<and> nexthashunits (htlayout_init P200 1) = 5
   \<and> dunits (htlayout_init P200 1) = 1
   \<and> prevhashunits (htlayout_init P200 2) = 5 \<and> nexthashunits (htlayout_init P200 2) = 5
   \<and> dunits (htlayout_init P200 2) = 0"
proof -
  have h: "implemented P200" "16 \<le> DIGITBITS P200" "WN P200 < 2 ^ 32"
    by (simp_all add: implemented_def BUCKBITS_def RESTBITS_def DIGITBITS_def P200_def)
  have r1: "1 \<le> unat (1 :: u32)" "unat (1 :: u32) \<le> WK P200"
    and r2: "1 \<le> unat (2 :: u32)" "unat (2 :: u32) \<le> WK P200"
    by (simp_all add: P200_def)
  have v: "prevhashunits (htlayout_init P200 1) = 6" "nexthashunits (htlayout_init P200 1) = 5"
     "prevhashunits (htlayout_init P200 2) = 5" "nexthashunits (htlayout_init P200 2) = 5"
    by (simp_all add: htlayout_init_def hashsize_def hashwords_def DIGITBITS_def P200_def Let_def)
  show ?thesis
    using h r1 r2 v htlayout_dunits [OF h r1] htlayout_dunits [OF h r2] by simp
qed

text \<open>
  The bound on the bucket bits is what keeps the decrease to one word. With N = 200 and
  K = 4 the digits would have 40 bits and the last layer would drop two words at once; the
  code does not implement that geometry.
\<close>

lemma dunits_outside_build:
  "\<not> implemented P200_4 \<and> digit0_bits P200_4 ph = None
   \<and> prevhashunits (htlayout_init P200_4 4) = 2 \<and> nexthashunits (htlayout_init P200_4 4) = 0
   \<and> dunits (htlayout_init P200_4 4) = 2"
  by (simp add: implemented_def digit0_bits_def BUCKBITS_def RESTBITS_def htlayout_init_def
      hashsize_def hashwords_def DIGITBITS_def P200_4_def Let_def)

subsection \<open>Bucket counters\<close>

text \<open>
  C4. For every layer \<open>r\<close> and bucket \<open>bid\<close>, getnslots returns the minimum of the
  bucket's counter and NSLOTS and resets the counter to 0, so a second call right after
  returns 0.
\<close>

theorem getnslots_drains:
  assumes "bid < NBUCKETS P"
  shows "\<exists>st'. getnslots P r bid st
            = Some (min (nslots st (r mod 2) bid) (of_nat NSLOTS), st')
          \<and> nslots st' (r mod 2) bid = 0
          \<and> (\<exists>st''. getnslots P r bid st' = Some (0, st''))"
proof -
  let ?c = "nslots st (r mod 2) bid"
  let ?st' = "st\<lparr>nslots := (nslots st)(r mod 2 := (nslots st (r mod 2))(bid := 0))\<rparr>"
  have m: "min_u32 ?c (of_nat NSLOTS) = min ?c (of_nat NSLOTS)"
    by (auto simp: min_u32_def min_def)
  have a: "getnslots P r bid st = Some (min ?c (of_nat NSLOTS), ?st')"
    using assms by (simp add: getnslots_def Let_def m)
  have b: "nslots ?st' (r mod 2) bid = 0" by simp
  have "min_u32 0 (of_nat NSLOTS) = 0"
    by (simp add: min_u32_def NSLOTS_def SLOTBITS_def RESTBITS_def)
  then have c: "\<exists>st''. getnslots P r bid ?st' = Some (0, st'')"
    using assms b unfolding getnslots_def Let_def by (simp only: if_True) simp
  from a b c show ?thesis by blast
qed

theorem getnslots_drains_witness:
  "(5 :: nat) < NBUCKETS P200
   \<and> map_option fst (getnslots P200 3 5 ((equi_new 1 mem_junk)\<lparr>nslots := (\<lambda>_ _. 70)\<rparr>)) = Some 64
   \<and> map_option fst (getnslots P200 3 5 ((equi_new 1 mem_junk)\<lparr>nslots := (\<lambda>_ _. 7)\<rparr>)) = Some 7"
proof -
  have h: "(5 :: nat) < NBUCKETS P200"
    by (simp add: NBUCKETS_def BUCKBITS_def DIGITBITS_def RESTBITS_def P200_def)
  have m: "min (70 :: u32) (of_nat NSLOTS) = 64" "min (7 :: u32) (of_nat NSLOTS) = 7"
    by (simp_all add: NSLOTS_def SLOTBITS_def RESTBITS_def)
  from getnslots_drains [OF h, of 3 "(equi_new 1 mem_junk)\<lparr>nslots := (\<lambda>_ _. 70)\<rparr>"]
       getnslots_drains [OF h, of 3 "(equi_new 1 mem_junk)\<lparr>nslots := (\<lambda>_ _. 7)\<rparr>"] h m
  show ?thesis by auto
qed

subsection \<open>The collision finder\<close>

lemma NRESTS_16: "NRESTS = 16" by (simp add: NRESTS_def RESTBITS_def)
lemma NSLOTS_64: "NSLOTS = 64" by (simp add: NSLOTS_def SLOTBITS_def RESTBITS_def)
lemma XFULL_16: "XFULL = 16" by (simp add: XFULL_def NSLOTS_64)

lemma occ_append: "occ (hist @ [(s, x)]) y = (if y = x then occ hist y @ [s] else occ hist y)"
  by (simp add: occ_def)

lemma occ_length_le: "length (occ hist x) \<le> length hist"
  by (simp add: occ_def)

lemma cd_inv_clear: "cd_inv [] (clear cd)"
  by (simp add: cd_inv_def clear_def occ_def)

lemma cd_inv_n0: "cd_inv hist (cd\<lparr>n0 := v\<rparr>) = cd_inv hist cd"
  by (simp add: cd_inv_def)

lemma unat_uchar_Suc:
  fixes c :: uchar
  assumes "unat c < 255"
  shows "unat (c + 1) = unat c + 1"
proof -
  have "unat c + unat (1 :: uchar) < 2 ^ LENGTH(8)" using assms by simp
  then show ?thesis by (simp only: unat_add_lem [THEN iffD1] unat_1)
qed

lemma unat_ucast_uchar: "unat (ucast (c :: uchar) :: u32) = unat c"
proof -
  have "unat c < 2 ^ 32" using unsigned_less [of c, where 'a = nat] by simp
  then show ?thesis by (simp add: unsigned_ucast_eq take_bit_nat_eq_self)
qed

lemma addslot_inv:
  assumes inv: "cd_inv hist cd" and len: "length hist < 255" and x: "unat x < NRESTS"
  shows "\<exists>cd'. addslot s x cd = Some (length (occ hist x) < XFULL, cd')
           \<and> cd_inv (hist @ [(s, x)]) cd'
           \<and> unat (n1 cd') = length (occ hist x)
           \<and> (length (occ hist x) < XFULL \<longrightarrow> xx cd' = unat x \<and> n0 cd' = 0)"
proof -
  let ?c = "nxhashslots cd (unat x)"
  have c: "unat ?c = length (occ hist x)" using inv x by (simp add: cd_inv_def)
  then have c255: "unat ?c < 255" using occ_length_le [of hist x] len by simp
  have c1: "unat (?c + 1) = length (occ hist x) + 1"
    using unat_uchar_Suc [OF c255] c by simp
  have uc: "unat (ucast ?c :: u32) = length (occ hist x)"
    using c by (simp add: unat_ucast_uchar)
  show ?thesis
  proof (cases "length (occ hist x) < XFULL")
    case True
    let ?cd' = "cd\<lparr>n1 := ucast ?c, nxhashslots := (nxhashslots cd)(unat x := ?c + 1),
                   xx := unat x,
                   xhashslots := (xhashslots cd)(unat x :=
                      (xhashslots cd (unat x))(length (occ hist x) := ucast s)),
                   n0 := 0\<rparr>"
    have a: "addslot s x cd = Some (True, ?cd')"
      using x True uc by (simp add: addslot_def Let_def)
    have "cd_inv (hist @ [(s, x)]) ?cd'"
      unfolding cd_inv_def
    proof (intro allI impI)
      fix y :: u32 assume y: "unat y < NRESTS"
      show "unat (nxhashslots ?cd' (unat y)) = length (occ (hist @ [(s, x)]) y) \<and>
           (\<forall>j. j < length (occ (hist @ [(s, x)]) y) \<and> j < XFULL \<longrightarrow>
              xhashslots ?cd' (unat y) j = ucast (occ (hist @ [(s, x)]) y ! j))"
      proof (cases "y = x")
        case True
        then show ?thesis using inv x c1 by (auto simp: occ_append cd_inv_def nth_append less_Suc_eq)
      next
        case False
        then have "unat y \<noteq> unat x" by (simp add: word_unat_eq_iff)
        then show ?thesis using inv y False by (simp add: occ_append cd_inv_def)
      qed
    qed
    then show ?thesis using a True uc by (intro exI [of _ ?cd']) simp
  next
    case False
    let ?cd' = "cd\<lparr>n1 := ucast ?c, nxhashslots := (nxhashslots cd)(unat x := ?c + 1)\<rparr>"
    have a: "addslot s x cd = Some (False, ?cd')"
      using x False uc by (simp add: addslot_def Let_def)
    have "cd_inv (hist @ [(s, x)]) ?cd'"
      unfolding cd_inv_def
    proof (intro allI impI)
      fix y :: u32 assume y: "unat y < NRESTS"
      show "unat (nxhashslots ?cd' (unat y)) = length (occ (hist @ [(s, x)]) y) \<and>
           (\<forall>j. j < length (occ (hist @ [(s, x)]) y) \<and> j < XFULL \<longrightarrow>
              xhashslots ?cd' (unat y) j = ucast (occ (hist @ [(s, x)]) y ! j))"
      proof (cases "y = x")
        case True
        then show ?thesis using inv x c1 False by (auto simp: occ_append cd_inv_def nth_append)
      next
        case False
        then have "unat y \<noteq> unat x" by (simp add: word_unat_eq_iff)
        then show ?thesis using inv y False by (simp add: occ_append cd_inv_def)
      qed
    qed
    then show ?thesis using a False uc by (intro exI [of _ ?cd']) simp
  qed
qed

lemma unat_u32_Suc:
  fixes a b :: u32
  assumes "a < b"
  shows "unat (a + 1) = unat a + 1"
proof -
  have "unat a < unat b" using assms by (simp add: word_less_nat_alt)
  then have "unat a + unat (1 :: u32) < 2 ^ LENGTH(32)"
    using unsigned_less [of b, where 'a = nat] by simp
  then show ?thesis by (simp only: unat_add_lem [THEN iffD1] unat_1)
qed

lemma collide_foldM:
  "n0 cd \<le> n1 cd \<Longrightarrow>
   collide f cd st =
     (case foldM f (map (\<lambda>j. ucast (xhashslots cd (xx cd) j)) [unat (n0 cd)..<unat (n1 cd)]) st of
        None \<Rightarrow> None
      | Some st' \<Rightarrow> Some (cd\<lparr>n0 := n1 cd\<rparr>, st'))"
proof (induction f cd st rule: collide.induct)
  case (1 f cd st)
  show ?case
  proof (cases "nextcollision cd")
    case True
    then have lt: "n0 cd < n1 cd" by (simp add: nextcollision_def)
    then have ltn: "unat (n0 cd) < unat (n1 cd)" by (simp add: word_less_nat_alt)
    have suc: "unat (n0 cd + 1) = unat (n0 cd) + 1" using lt by (rule unat_u32_Suc)
    have le': "n0 (snd (slot cd)) \<le> n1 (snd (slot cd))"
      using ltn suc by (simp add: slot_def word_le_nat_alt)
    have upt: "[unat (n0 cd)..<unat (n1 cd)] = unat (n0 cd) # [unat (n0 cd) + 1..<unat (n1 cd)]"
      using ltn by (simp add: upt_conv_Cons)
    show ?thesis
    proof (cases "f (fst (slot cd)) st")
      case None
      then show ?thesis using True upt by (subst collide.simps) (simp add: slot_def)
    next
      case (Some st')
      have step: "collide f cd st = collide f (snd (slot cd)) st'"
        using True Some by (subst collide.simps) simp
      have ih: "collide f (snd (slot cd)) st' =
         (case foldM f (map (\<lambda>j. ucast (xhashslots cd (xx cd) j))
                  [unat (n0 cd) + 1..<unat (n1 cd)]) st' of
            None \<Rightarrow> None
          | Some st'' \<Rightarrow> Some (cd\<lparr>n0 := n1 cd\<rparr>, st''))"
        using "1.IH" [OF True Some le'] suc by (simp add: slot_def split: option.splits)
      show ?thesis using Some unfolding step ih upt by (simp add: slot_def)
    qed
  next
    case False
    then have "n0 cd = n1 cd" using "1.prems" by (simp add: nextcollision_def)
    then show ?thesis using False by (subst collide.simps) simp
  qed
qed

lemma foldM_record: "foldM (\<lambda>s acc. Some (acc @ [s])) xs acc = Some (acc @ xs)"
  by (induction xs arbitrary: acc) simp_all

lemma addslots_inv:
  assumes "cd_inv hist cd" "length hist + length cs \<le> NSLOTS"
    and "list_all (\<lambda>p. unat (snd p) < NRESTS) cs"
  shows "\<exists>cd'. addslots cs cd =
            Some (map (\<lambda>k. length (occ (take k (hist @ cs)) (snd ((hist @ cs) ! k))) < XFULL)
                    [length hist..<length hist + length cs], cd')
          \<and> cd_inv (hist @ cs) cd'"
  using assms
proof (induction cs arbitrary: hist cd)
  case Nil
  then show ?case by simp
next
  case (Cons p cs)
  obtain s x where p: "p = (s, x)" by (cases p)
  have len: "length hist < 255" using Cons.prems(2) by (simp add: NSLOTS_64)
  have x: "unat x < NRESTS" using Cons.prems(3) p by simp
  from addslot_inv [OF Cons.prems(1) len x, of s]
  obtain cd1 where a: "addslot s x cd = Some (length (occ hist x) < XFULL, cd1)"
    and inv1: "cd_inv (hist @ [(s, x)]) cd1" by blast
  have l1: "length (hist @ [(s, x)]) + length cs \<le> NSLOTS" using Cons.prems(2) by simp
  have r1: "list_all (\<lambda>p. unat (snd p) < NRESTS) cs" using Cons.prems(3) by simp
  from Cons.IH [OF inv1 l1 r1]
  obtain cd' where b: "addslots cs cd1 =
            Some (map (\<lambda>k. length (occ (take k ((hist @ [(s, x)]) @ cs))
                          (snd (((hist @ [(s, x)]) @ cs) ! k))) < XFULL)
                    [length (hist @ [(s, x)])..<length (hist @ [(s, x)]) + length cs], cd')"
    and inv': "cd_inv ((hist @ [(s, x)]) @ cs) cd'" by blast
  have upt: "[length hist..<length hist + length (p # cs)]
       = length hist # [length (hist @ [(s, x)])..<length (hist @ [(s, x)]) + length cs]"
    by (subst upt_conv_Cons) simp_all
  show ?case
    unfolding upt using a b inv' p by (intro exI [of _ cd']) simp
qed

lemma occ_take_mono:
  assumes "j \<le> k"
  shows "length (occ (take j cs) x) \<le> length (occ (take k cs) x)"
proof -
  have "take k cs = take j cs @ take (k - j) (drop j cs)"
    using assms by (metis le_add_diff_inverse take_add)
  then show ?thesis by (simp add: occ_def)
qed

text \<open>
  C10. In the array form of the finder, take any sequence of at most NSLOTS addslot calls
  after clear, each with a rest value below NRESTS. Call \<open>k\<close> returns false exactly when
  at least XFULL earlier calls of the sequence carried the same rest value; once a call is
  rejected, every later call with that rest value is rejected; and at the end the counter
  of every rest value is the number of calls that carried it, rejected ones included, so
  the 8-bit counter has not wrapped.
\<close>

theorem addslot_rejects_iff_full:
  assumes len: "length cs \<le> NSLOTS" and rests: "list_all (\<lambda>p. unat (snd p) < NRESTS) cs"
  shows "\<exists>oks cd'. addslots cs (clear cd) = Some (oks, cd') \<and> length oks = length cs
     \<and> (\<forall>k < length cs. \<not> oks ! k \<longleftrightarrow> XFULL \<le> length (occ (take k cs) (snd (cs ! k))))
     \<and> (\<forall>j k. j < k \<and> k < length cs \<and> snd (cs ! j) = snd (cs ! k) \<and> \<not> oks ! j \<longrightarrow> \<not> oks ! k)
     \<and> (\<forall>x. unat x < NRESTS \<longrightarrow> unat (nxhashslots cd' (unat x)) = length (occ cs x))"
proof -
  from addslots_inv [OF cd_inv_clear [of cd] _ rests] len
  obtain cd' where a: "addslots cs (clear cd) =
      Some (map (\<lambda>k. length (occ (take k cs) (snd (cs ! k))) < XFULL) [0..<length cs], cd')"
    and inv: "cd_inv cs cd'" by auto
  let ?oks = "map (\<lambda>k. length (occ (take k cs) (snd (cs ! k))) < XFULL) [0..<length cs]"
  have 1: "\<forall>k < length cs. \<not> ?oks ! k \<longleftrightarrow> XFULL \<le> length (occ (take k cs) (snd (cs ! k)))"
    by (simp add: not_less)
  have 2: "\<forall>j k. j < k \<and> k < length cs \<and> snd (cs ! j) = snd (cs ! k) \<and> \<not> ?oks ! j \<longrightarrow> \<not> ?oks ! k"
  proof (intro allI impI)
    fix j k assume h: "j < k \<and> k < length cs \<and> snd (cs ! j) = snd (cs ! k) \<and> \<not> ?oks ! j"
    then have jl: "j < length cs" and e: "snd (cs ! j) = snd (cs ! k)"
      and nj: "\<not> ?oks ! j" by simp_all
    from nj jl have "XFULL \<le> length (occ (take j cs) (snd (cs ! j)))" by (simp add: not_less)
    then have "XFULL \<le> length (occ (take j cs) (snd (cs ! k)))" unfolding e .
    also have "\<dots> \<le> length (occ (take k cs) (snd (cs ! k)))"
      using h by (intro occ_take_mono) simp
    finally show "\<not> ?oks ! k" using h by (simp add: not_less)
  qed
  have 3: "\<forall>x. unat x < NRESTS \<longrightarrow> unat (nxhashslots cd' (unat x)) = length (occ cs x)"
    using inv by (simp add: cd_inv_def)
  show ?thesis using a 1 2 3 by (intro exI [of _ ?oks] exI [of _ cd']) simp
qed


lemma hist_of_snoc: "hist_of (hs @ [y]) = hist_of hs @ [(of_nat (length hs), y)]"
  by (simp add: hist_of_def)

lemma occ_hist_of: "occ (hist_of hs) y = map of_nat (filter (\<lambda>j. hs ! j = y) [0..<length hs])"
proof (induction hs rule: rev_induct)
  case Nil
  then show ?case by (simp add: hist_of_def occ_def)
next
  case (snoc h hs)
  have "filter (\<lambda>j. (hs @ [h]) ! j = y) [0..<length hs] = filter (\<lambda>j. hs ! j = y) [0..<length hs]"
    by (rule filter_cong) (simp_all add: nth_append)
  then show ?case using snoc by (auto simp: hist_of_snoc occ_append)
qed

lemma same_before_prefix:
  "same_before (hs @ y # ys) (length hs) = filter (\<lambda>j. hs ! j = y) [0..<length hs]"
  unfolding same_before_def by (rule filter_cong) (simp_all add: nth_append)

lemma same_before_accepted:
  assumes "accepted xs k" "j \<in> set (same_before xs k)"
  shows "accepted xs j"
proof -
  from assms(2) have jk: "j < k" and e: "xs ! j = xs ! k" by (simp_all add: same_before_def)
  have "same_before xs j = filter (\<lambda>i. xs ! i = xs ! k) [0..<j]"
    by (simp add: same_before_def e)
  moreover have "[0..<k] = [0..<j] @ [j..<k]"
    using jk by (metis le_add_diff_inverse less_imp_le_nat upt_add_eq_append zero_le)
  ultimately have "length (same_before xs j) \<le> length (same_before xs k)"
    by (simp add: same_before_def)
  then show ?thesis using assms(1) by (simp add: accepted_def)
qed

lemma ucast_of_nat_small:
  assumes "i < 256"
  shows "(ucast (ucast (of_nat i :: u32) :: uchar) :: u32) = of_nat i"
proof -
  have "unat (of_nat i :: u32) = i" using assms by (simp add: unat_of_nat)
  then have "unat (ucast (of_nat i :: u32) :: uchar) = i"
    using assms by (simp add: unsigned_ucast_eq take_bit_nat_eq_self)
  then have "unat (ucast (ucast (of_nat i :: u32) :: uchar) :: u32) = i"
    by (simp add: unat_ucast_uchar)
  then show ?thesis by (metis of_nat_unat ucast_id)
qed

lemma feed_inv:
  assumes "cd_inv (hist_of hs) cd" "length hs + length ys \<le> NSLOTS"
    and "list_all (\<lambda>x. unat x < NRESTS) ys"
  shows "feed (length hs) ys cd =
     Some (map (\<lambda>k. (accepted (hs @ ys) k,
                     if accepted (hs @ ys) k
                     then map of_nat (filter (accepted (hs @ ys)) (same_before (hs @ ys) k))
                     else []))
            [length hs..<length hs + length ys])"
  using assms
proof (induction ys arbitrary: hs cd)
  case Nil
  then show ?case by simp
next
  case (Cons y ys)
  let ?k = "length hs"
  let ?xs = "hs @ y # ys"
  let ?sb = "filter (\<lambda>j. hs ! j = y) [0..<length hs]"
  have len: "length (hist_of hs) < 255" using Cons.prems(2) by (simp add: NSLOTS_64 hist_of_def)
  have y: "unat y < NRESTS" using Cons.prems(3) by simp
  have oc: "occ (hist_of hs) y = map of_nat ?sb" by (rule occ_hist_of)
  have sb: "same_before ?xs ?k = ?sb" by (rule same_before_prefix)
  have acc: "accepted ?xs ?k \<longleftrightarrow> length (occ (hist_of hs) y) < XFULL"
    by (simp add: accepted_def sb oc)
  from addslot_inv [OF Cons.prems(1) len y, of "of_nat ?k"]
  obtain cd1 where a0: "addslot (of_nat ?k) y cd = Some (length (occ (hist_of hs) y) < XFULL, cd1)"
    and inv0: "cd_inv (hist_of hs @ [(of_nat ?k, y)]) cd1"
    and n10: "unat (n1 cd1) = length (occ (hist_of hs) y)"
    and ok0: "length (occ (hist_of hs) y) < XFULL \<longrightarrow> xx cd1 = unat y \<and> n0 cd1 = 0"
    by blast
  have a: "addslot (of_nat ?k) y cd = Some (accepted ?xs ?k, cd1)"
    using a0 acc by simp
  have inv1: "cd_inv (hist_of (hs @ [y])) cd1"
    using inv0 by (simp add: hist_of_snoc)
  have n1: "unat (n1 cd1) = length ?sb"
    using n10 by (simp add: oc)
  have ok: "accepted ?xs ?k \<longrightarrow> xx cd1 = unat y \<and> n0 cd1 = 0"
    using ok0 acc by simp
  define cd2 where "cd2 = (if accepted ?xs ?k then cd1\<lparr>n0 := n1 cd1\<rparr> else cd1)"
  define ps where "ps = (if accepted ?xs ?k
     then map of_nat (filter (accepted ?xs) (same_before ?xs ?k)) else ([] :: u32 list))"
  have inv2: "cd_inv (hist_of (hs @ [y])) cd2"
    using inv1 by (simp add: cd2_def cd_inv_n0)
  have coll: "(if accepted ?xs ?k then collide (\<lambda>s acc. Some (acc @ [s])) cd1 [] else Some (cd1, []))
      = Some (cd2, ps)"
  proof (cases "accepted ?xs ?k")
    case False
    then show ?thesis by (simp add: cd2_def ps_def)
  next
    case True
    then have x0: "xx cd1 = unat y" "n0 cd1 = 0" using ok by simp_all
    have lt: "length ?sb < XFULL" using True by (simp add: accepted_def sb)
    have rows: "map (\<lambda>j. (ucast (xhashslots cd1 (xx cd1) j) :: u32)) [0..<length ?sb] = map of_nat ?sb"
    proof (rule nth_equalityI)
      show "length (map (\<lambda>j. (ucast (xhashslots cd1 (xx cd1) j) :: u32)) [0..<length ?sb])
          = length (map (of_nat :: nat \<Rightarrow> u32) ?sb)" by simp
    next
      fix j assume "j < length (map (\<lambda>j. (ucast (xhashslots cd1 (xx cd1) j) :: u32)) [0..<length ?sb])"
      then have j: "j < length ?sb" by simp
      have o1: "occ (hist_of (hs @ [y])) y = map of_nat ?sb @ [of_nat ?k]"
        by (simp add: hist_of_snoc occ_append oc)
      have "j < length (occ (hist_of (hs @ [y])) y) \<and> j < XFULL"
        using j lt by (simp add: o1)
      then have "xhashslots cd1 (unat y) j = ucast (occ (hist_of (hs @ [y])) y ! j)"
        using inv1 y unfolding cd_inv_def by blast
      also have "\<dots> = ucast (of_nat (?sb ! j) :: u32)"
        using j by (simp add: o1 nth_append)
      finally have r: "xhashslots cd1 (unat y) j = ucast (of_nat (?sb ! j) :: u32)" .
      have "?sb ! j \<in> set ?sb" using j by (rule nth_mem)
      then have "?sb ! j < length hs" by simp
      then have "?sb ! j < 256" using Cons.prems(2) by (simp add: NSLOTS_64)
      then show "map (\<lambda>j. (ucast (xhashslots cd1 (xx cd1) j) :: u32)) [0..<length ?sb] ! j
           = map of_nat ?sb ! j"
        using j r x0 by (simp add: ucast_of_nat_small)
    qed
    have all: "filter (accepted ?xs) (same_before ?xs ?k) = same_before ?xs ?k"
      using same_before_accepted [OF True] by (simp add: filter_id_conv)
    have "collide (\<lambda>s acc. Some (acc @ [s])) cd1 [] = Some (cd1\<lparr>n0 := n1 cd1\<rparr>, map of_nat ?sb)"
      using x0 n1 rows by (subst collide_foldM) (simp_all add: foldM_record)
    moreover have "ps = map of_nat (same_before ?xs ?k)"
      using True by (simp only: ps_def all if_True)
    then have "ps = map of_nat ?sb" by (simp only: sb)
    ultimately show ?thesis using True by (simp add: cd2_def)
  qed
  have l2: "length (hs @ [y]) + length ys \<le> NSLOTS" using Cons.prems(2) by simp
  have r2: "list_all (\<lambda>x. unat x < NRESTS) ys" using Cons.prems(3) by simp
  have ih: "feed (?k + 1) ys cd2 =
     Some (map (\<lambda>k. (accepted ?xs k,
                     if accepted ?xs k
                     then map of_nat (filter (accepted ?xs) (same_before ?xs k))
                     else []))
            [?k + 1..<?k + 1 + length ys])"
    using Cons.IH [OF inv2 l2 r2] by simp
  have upt: "[?k..<?k + length (y # ys)] = ?k # [?k + 1..<?k + 1 + length ys]"
    by (subst upt_conv_Cons) simp_all
  show ?case
    unfolding upt using a coll ih by (simp add: ps_def)
qed

theorem addslot_rejects_iff_full_witness:
  "length calls18 \<le> NSLOTS
   \<and> list_all (\<lambda>p. unat (snd p) < NRESTS) calls18
   \<and> map_option (\<lambda>res. fst res ! 15) (addslots calls18 (clear cd_junk)) = Some True
   \<and> map_option (\<lambda>res. fst res ! 16) (addslots calls18 (clear cd_junk)) = Some False
   \<and> map_option (\<lambda>res. fst res ! 17) (addslots calls18 (clear cd_junk)) = Some False
   \<and> map_option (\<lambda>res. nxhashslots (snd res) 1) (addslots calls18 (clear cd_junk)) = Some 18"
proof -
  have h: "length calls18 \<le> NSLOTS" "list_all (\<lambda>p. unat (snd p) < NRESTS) calls18"
    by (simp_all add: calls18_def NSLOTS_64 NRESTS_16 list_all_iff)
  from addslot_rejects_iff_full [OF h, of cd_junk]
  obtain oks cd' where a: "addslots calls18 (clear cd_junk) = Some (oks, cd')"
    and ch: "\<forall>k < length calls18. \<not> oks ! k
         \<longleftrightarrow> XFULL \<le> length (occ (take k calls18) (snd (calls18 ! k)))"
    and cnt: "\<forall>x. unat x < NRESTS \<longrightarrow> unat (nxhashslots cd' (unat x)) = length (occ calls18 x)"
    by blast
  have l: "(15 :: nat) < length calls18" "(16 :: nat) < length calls18"
      "(17 :: nat) < length calls18"
    by (simp_all add: calls18_def)
  have e: "XFULL \<le> length (occ (take 15 calls18) (snd (calls18 ! 15))) \<longleftrightarrow> False"
     "XFULL \<le> length (occ (take 16 calls18) (snd (calls18 ! 16))) \<longleftrightarrow> True"
     "XFULL \<le> length (occ (take 17 calls18) (snd (calls18 ! 17))) \<longleftrightarrow> True"
     "length (occ calls18 1) = 18"
    by code_simp+
  have "oks ! 15" "\<not> oks ! 16" "\<not> oks ! 17"
    using ch l e by blast+
  moreover have "unat (1 :: u32) < NRESTS" by (simp add: NRESTS_16)
  then have "unat (nxhashslots cd' (unat (1 :: u32))) = length (occ calls18 1)"
    using cnt by blast
  then have "nxhashslots cd' 1 = 18" using e(4) by (simp add: word_unat_eq_iff)
  ultimately show ?thesis using h a by simp
qed

subsection \<open>The bitmap form\<close>

lemma lsb_props:
  fixes w :: u64
  assumes "w \<noteq> 0"
  defines "p \<equiv> length (takeWhile (\<lambda>n. \<not> bit w n) [0..<64])"
  shows "p < 64" and "bit w p" and "\<forall>n<p. \<not> bit w n"
proof -
  from assms(1) obtain n where n: "bit w n"
    by (auto simp add: bit_eq_iff)
  then have "n < 64" using bit_imp_le_length [of w n] by simp
  with n have "\<exists>x\<in>set [0..<64]. \<not> \<not> bit w x" by auto
  have lt: "p < length [0..<64]"
  proof (rule ccontr)
    assume "\<not> p < length [0..<64]"
    moreover have "p \<le> length [0..<64]" unfolding p_def by (rule length_takeWhile_le)
    ultimately have "p = length [0..<64]" by simp
    then have "take (length (takeWhile (\<lambda>n. \<not> bit w n) [0..<64])) [0..<64] = [0..<64]"
      unfolding p_def by simp
    then have "takeWhile (\<lambda>n. \<not> bit w n) [0..<64] = [0..<64]"
      by (simp only: takeWhile_eq_take [symmetric])
    then have "\<forall>x\<in>set [0..<64]. \<not> bit w x"
      by (simp only: takeWhile_eq_all_conv)
    with \<open>\<exists>x\<in>set [0..<64]. \<not> \<not> bit w x\<close> show False by blast
  qed
  then show p: "p < 64" by simp
  have "\<not> \<not> bit w ([0..<64] ! p)"
    using lt unfolding p_def by (rule nth_length_takeWhile)
  then show "bit w p" using p by simp
  show "\<forall>n<p. \<not> bit w n"
  proof (intro allI impI)
    fix m assume m: "m < p"
    then have "takeWhile (\<lambda>n. \<not> bit w n) [0..<64] ! m \<in> set (takeWhile (\<lambda>n. \<not> bit w n) [0..<64])"
      unfolding p_def by (rule nth_mem)
    then have "\<not> bit w (takeWhile (\<lambda>n. \<not> bit w n) [0..<64] ! m)"
      by (rule set_takeWhileD [THEN conjunct2])
    moreover have "takeWhile (\<lambda>n. \<not> bit w n) [0..<64] ! m = [0..<64] ! m"
      using m unfolding p_def by (rule takeWhile_nth)
    ultimately show "\<not> bit w m" using m p by simp
  qed
qed

lemma filter_upt_shift:
  "filter P [a..<b] = map (\<lambda>q. q + a) (filter (\<lambda>q. P (q + a)) [0..<b - a])"
proof (cases "a \<le> b")
  case True
  have "[a..<b] = map (\<lambda>q. q + a) [0..<b - a]"
    using True by (simp add: map_add_upt)
  then show ?thesis by (simp add: filter_map comp_def)
next
  case False
  then show ?thesis by simp
qed

lemma bits_split:
  fixes w :: u64
  assumes "w \<noteq> 0"
  defines "p \<equiv> length (takeWhile (\<lambda>n. \<not> bit w n) [0..<64])"
  shows "filter (bit w) [0..<64]
       = p # map (\<lambda>q. q + Suc p) (filter (bit (drop_bit (Suc p) w)) [0..<64])"
proof -
  have p: "p < 64" and b: "bit w p" and z: "\<forall>n<p. \<not> bit w n"
    using lsb_props [OF assms(1)] unfolding p_def by blast+
  have s: "[0..<64] = [0..<p] @ p # [Suc p..<64]"
    using p by (metis less_imp_add_positive upt_add_eq_append upt_conv_Cons zero_le)
  have lo: "filter (bit w) [0..<p] = []" using z by (simp add: filter_empty_conv)
  have hi: "filter (bit w) [Suc p..<64]
      = map (\<lambda>q. q + Suc p) (filter (\<lambda>q. bit w (q + Suc p)) [0..<64 - Suc p])"
    by (rule filter_upt_shift)
  have t: "[0..<64] = [0..<64 - Suc p] @ [64 - Suc p..<64]"
    by (metis diff_le_self upt_add_eq_append zero_le le_add_diff_inverse)
  have top: "filter (bit (drop_bit (Suc p) w)) [64 - Suc p..<64] = []"
  proof -
    have "\<not> bit (drop_bit (Suc p) w) q" if "64 - Suc p \<le> q" for q
    proof -
      have "64 \<le> Suc p + q" using that by simp
      then have "\<not> bit w (Suc p + q)" using bit_imp_le_length [of w "Suc p + q"] by auto
      then show ?thesis by (simp add: bit_drop_bit_eq)
    qed
    then show ?thesis by (simp add: filter_empty_conv)
  qed
  have d: "filter (bit (drop_bit (Suc p) w)) [0..<64]
      = filter (\<lambda>q. bit w (q + Suc p)) [0..<64 - Suc p]"
  proof -
    have "filter (bit (drop_bit (Suc p) w)) [0..<64]
        = filter (bit (drop_bit (Suc p) w)) [0..<64 - Suc p]
          @ filter (bit (drop_bit (Suc p) w)) [64 - Suc p..<64]"
      by (subst t) (rule filter_append)
    also have "\<dots> = filter (bit (drop_bit (Suc p) w)) [0..<64 - Suc p]"
      by (simp only: top append_Nil2)
    also have "\<dots> = filter (\<lambda>q. bit w (q + Suc p)) [0..<64 - Suc p]"
      by (rule filter_cong) (simp_all add: bit_drop_bit_eq add.commute)
    finally show ?thesis .
  qed
  show ?thesis
    by (subst s) (simp add: lo b hi d del: upt_Suc)
qed


lemma collide_bm_enum:
  assumes "\<not> bit (xmap cd) 63"
  shows "\<exists>cd'. collide_bm (\<lambda>s acc. Some (acc @ [s])) cd acc
        = Some (cd', acc @ map (\<lambda>p. s0 cd + 1 + of_nat p) (filter (bit (xmap cd)) [0..<64]))
      \<and> xhashmap cd' = xhashmap cd"
  using assms
proof (induction "unat (xmap cd)" arbitrary: cd acc rule: less_induct)
  case less
  show ?case
  proof (cases "xmap cd = 0")
    case True
    then have "filter (bit (xmap cd)) [0..<64] = []" by (simp add: filter_empty_conv)
    then show ?thesis
      using True by (subst collide_bm.simps) (simp add: nextcollision_bm_def)
  next
    case False
    define p where "p = length (takeWhile (\<lambda>n. \<not> bit (xmap cd) n) [0..<64])"
    have p: "p < 64" and b: "bit (xmap cd) p"
      using lsb_props [OF False] unfolding p_def by blast+
    have p63: "p \<noteq> 63" using b less.prems by auto
    have ff: "ffsll (xmap cd) = Suc p" using False by (simp add: ffsll_def p_def)
    define cd1 where "cd1 = cd\<lparr>s0 := s0 cd + of_nat (Suc p), xmap := drop_bit (Suc p) (xmap cd)\<rparr>"
    have sl: "slot_bm cd = Some (s0 cd + of_nat (Suc p), cd1)"
      using p p63 by (simp add: slot_bm_def ff cd1_def)
    have pos: "0 < unat (xmap cd)" using False by (simp add: unat_gt_0)
    have "unat (xmap cd1) = unat (xmap cd) div 2 ^ Suc p"
      unfolding cd1_def by (simp del: power_Suc) (subst unat_drop_bit_eq, simp only: drop_bit_eq_div)
    also have "\<dots> < unat (xmap cd)"
    proof (rule div_less_dividend)
      show "1 < (2 :: nat) ^ Suc p" by (rule one_less_power) simp_all
      show "0 < unat (xmap cd)" by (rule pos)
    qed
    finally have dec: "unat (xmap cd1) < unat (xmap cd)" .
    have nb: "\<not> bit (xmap cd1) 63"
      using bit_imp_le_length [of "xmap cd" "Suc p + 63"]
      by (auto simp add: cd1_def bit_drop_bit_eq)
    from less.hyps [OF dec nb, of "acc @ [s0 cd + of_nat (Suc p)]"]
    obtain cd' where c: "collide_bm (\<lambda>s acc. Some (acc @ [s])) cd1 (acc @ [s0 cd + of_nat (Suc p)])
        = Some (cd', (acc @ [s0 cd + of_nat (Suc p)])
              @ map (\<lambda>q. s0 cd1 + 1 + of_nat q) (filter (bit (xmap cd1)) [0..<64]))"
      and x: "xhashmap cd' = xhashmap cd1" by blast
    have bs: "filter (bit (xmap cd)) [0..<64]
        = p # map (\<lambda>q. q + Suc p) (filter (bit (xmap cd1)) [0..<64])"
      using bits_split [OF False] unfolding p_def cd1_def by simp
    have "collide_bm (\<lambda>s acc. Some (acc @ [s])) cd acc
        = Some (cd', (acc @ [s0 cd + of_nat (Suc p)])
              @ map (\<lambda>q. s0 cd1 + 1 + of_nat q) (filter (bit (xmap cd1)) [0..<64]))"
      using False c by (subst collide_bm.simps) (simp add: nextcollision_bm_def sl)
    moreover have "(acc @ [s0 cd + of_nat (Suc p)])
              @ map (\<lambda>q. s0 cd1 + 1 + of_nat q) (filter (bit (xmap cd1)) [0..<64])
        = acc @ map (\<lambda>p. s0 cd + 1 + of_nat p) (filter (bit (xmap cd)) [0..<64])"
      unfolding bs by (simp add: cd1_def comp_def algebra_simps)
    moreover have "xhashmap cd' = xhashmap cd" using x by (simp add: cd1_def)
    ultimately show ?thesis by simp
  qed
qed

lemma addslot_bm_inv:
  assumes inv: "bm_inv hs cd" and k: "length hs < 64" and y: "unat y < NRESTS"
  shows "\<exists>cd1. addslot_bm (of_nat (length hs)) y cd = Some (True, cd1)
      \<and> bm_inv (hs @ [y]) cd1 \<and> s0 cd1 = - 1
      \<and> (\<forall>n. bit (xmap cd1) n = (n < length hs \<and> hs ! n = y))"
proof -
  let ?k = "length hs"
  have uk: "unat (of_nat ?k :: u32) = ?k" using k by (simp add: unat_of_nat_u32)
  define cd1 where "cd1 = cd\<lparr>xmap := xhashmap cd (unat y),
       xhashmap := (xhashmap cd)(unat y := xhashmap cd (unat y) OR push_bit ?k 1),
       s0 := - 1\<rparr>"
  have a: "addslot_bm (of_nat ?k) y cd = Some (True, cd1)"
    using k y by (simp add: addslot_bm_def uk cd1_def)
  have old: "bit (xhashmap cd (unat x)) n = (n < ?k \<and> hs ! n = x)" if "unat x < NRESTS" for x n
    using inv that unfolding bm_inv_def by blast
  have xm: "\<forall>n. bit (xmap cd1) n = (n < ?k \<and> hs ! n = y)"
    using old [OF y] by (simp add: cd1_def)
  have "bm_inv (hs @ [y]) cd1"
    unfolding bm_inv_def
  proof (intro allI impI)
    fix x :: u32 and n assume x: "unat x < NRESTS"
    show "bit (xhashmap cd1 (unat x)) n = (n < length (hs @ [y]) \<and> (hs @ [y]) ! n = x)"
    proof (cases "x = y")
      case True
      have "bit (xhashmap cd1 (unat x)) n = (bit (xhashmap cd (unat y)) n \<or> n = ?k)"
        using k True by (auto simp add: cd1_def bit_simps)
      then show ?thesis using True old [OF y, of n] by (auto simp add: nth_append)
    next
      case False
      then have "unat x \<noteq> unat y" by (simp add: word_unat_eq_iff)
      then have "bit (xhashmap cd1 (unat x)) n = bit (xhashmap cd (unat x)) n"
        by (simp add: cd1_def)
      then show ?thesis using False old [OF x, of n] by (auto simp add: nth_append)
    qed
  qed
  then show ?thesis using a xm by (auto simp add: cd1_def)
qed

lemma bm_inv_clear: "bm_inv [] (clear_bm cd)"
  by (simp add: bm_inv_def clear_bm_def)

lemma feed_bm_inv:
  assumes "bm_inv hs cd" "length hs + length ys \<le> NSLOTS"
    and "list_all (\<lambda>x. unat x < NRESTS) ys"
  shows "feed_bm (length hs) ys cd =
     Some (map (\<lambda>k. (True, map of_nat (same_before (hs @ ys) k)))
            [length hs..<length hs + length ys])"
  using assms
proof (induction ys arbitrary: hs cd)
  case Nil
  then show ?case by simp
next
  case (Cons y ys)
  let ?k = "length hs"
  let ?xs = "hs @ y # ys"
  let ?sb = "filter (\<lambda>j. hs ! j = y) [0..<length hs]"
  have k: "?k < 64" using Cons.prems(2) by (simp add: NSLOTS_64)
  have y: "unat y < NRESTS" using Cons.prems(3) by simp
  have sb: "same_before ?xs ?k = ?sb" by (rule same_before_prefix)
  from addslot_bm_inv [OF Cons.prems(1) k y]
  obtain cd1 where a: "addslot_bm (of_nat ?k) y cd = Some (True, cd1)"
    and inv1: "bm_inv (hs @ [y]) cd1" and s: "s0 cd1 = - 1"
    and xm: "\<forall>n. bit (xmap cd1) n = (n < ?k \<and> hs ! n = y)" by blast
  have nb: "\<not> bit (xmap cd1) 63" using xm k by simp
  from collide_bm_enum [OF nb, of "[]"]
  obtain cd2 where c: "collide_bm (\<lambda>s acc. Some (acc @ [s])) cd1 []
        = Some (cd2, map (\<lambda>p. s0 cd1 + 1 + of_nat p) (filter (bit (xmap cd1)) [0..<64]))"
    and x2: "xhashmap cd2 = xhashmap cd1" by auto
  have s64: "[0..<64] = [0..<?k] @ [?k..<64]"
    using k by (metis less_imp_le_nat upt_add_eq_append zero_le le_add_diff_inverse)
  have "filter (bit (xmap cd1)) [0..<64] = filter (\<lambda>n. n < ?k \<and> hs ! n = y) [0..<64]"
    by (rule filter_cong) (simp_all add: xm)
  also have "\<dots> = filter (\<lambda>n. n < ?k \<and> hs ! n = y) [0..<?k]"
    by (subst s64) (simp add: filter_empty_conv del: upt_Suc)
  also have "\<dots> = ?sb"
    by (rule filter_cong) simp_all
  finally have f: "filter (bit (xmap cd1)) [0..<64] = ?sb" .
  have c': "collide_bm (\<lambda>s acc. Some (acc @ [s])) cd1 [] = Some (cd2, map of_nat (same_before ?xs ?k))"
    using c by (simp add: f sb s)
  have inv2: "bm_inv (hs @ [y]) cd2"
    using inv1 x2 by (simp add: bm_inv_def)
  have len: "length (hs @ [y]) + length ys \<le> NSLOTS" using Cons.prems(2) by simp
  have ok: "list_all (\<lambda>x. unat x < NRESTS) ys" using Cons.prems(3) by simp
  have ih: "feed_bm (?k + 1) ys cd2 =
     Some (map (\<lambda>k. (True, map of_nat (same_before ?xs k))) [Suc ?k..<Suc ?k + length ys])"
    using Cons.IH [OF inv2 len ok] by simp
  have u: "[?k..<?k + length (y # ys)] = ?k # [Suc ?k..<Suc ?k + length ys]"
    by (subst upt_conv_Cons) simp_all
  show ?case
    unfolding u using a c' ih by simp
qed

text \<open>
  C2. After clear, feed the finder the slot ids 0, 1, 2, \<dots> in order (at most NSLOTS of
  them, as a bucket holds), each with a rest value below NRESTS. In the array form, slot
  \<open>k\<close> is accepted exactly when fewer than XFULL earlier slots carried its rest value,
  and an accepted slot yields exactly the earlier accepted slots with its rest value, each
  once, in the order they were inserted. In the bitmap form every slot is accepted and
  yields exactly the earlier slots with its rest value, each once, in the order they were
  inserted. So in both forms every pair of accepted slots with equal rest values is
  delivered once, when its later member is fed.
\<close>

theorem finder_yields_earlier_partners:
  assumes "length xs \<le> NSLOTS" and "list_all (\<lambda>x. unat x < NRESTS) xs"
  shows "feed 0 xs (clear cd) =
     Some (map (\<lambda>k. (accepted xs k,
                     if accepted xs k
                     then map of_nat (filter (accepted xs) (same_before xs k))
                     else []))
            [0..<length xs])
   \<and> feed_bm 0 xs (clear_bm bm) =
     Some (map (\<lambda>k. (True, map of_nat (same_before xs k))) [0..<length xs])"
  using feed_inv [of "[]" "clear cd" xs] feed_bm_inv [of "[]" "clear_bm bm" xs] assms
  by (simp add: hist_of_def cd_inv_clear bm_inv_clear)

theorem finder_yields_earlier_partners_witness:
  "length [1, 2, 1, 1, 2, 3 :: u32] \<le> NSLOTS
   \<and> list_all (\<lambda>x. unat x < NRESTS) [1, 2, 1, 1, 2, 3 :: u32]
   \<and> feed 0 [1, 2, 1, 1, 2, 3] (clear cd_junk)
      = Some [(True, []), (True, []), (True, [0]), (True, [0, 2]), (True, [1]), (True, [])]
   \<and> feed_bm 0 [1, 2, 1, 1, 2, 3] (clear_bm bm_junk)
      = Some [(True, []), (True, []), (True, [0]), (True, [0, 2]), (True, [1]), (True, [])]
   \<and> length (replicate 17 (3 :: u32)) \<le> NSLOTS
   \<and> list_all (\<lambda>x. unat x < NRESTS) (replicate 17 (3 :: u32))
   \<and> map_option (\<lambda>res. res ! 16) (feed 0 (replicate 17 3) (clear cd_junk)) = Some (False, [])
   \<and> map_option (\<lambda>res. res ! 16) (feed_bm 0 (replicate 17 3) (clear_bm bm_junk))
      = Some (True, [0, 1, 2, 3, 4, 5, 6, 7, 8, 9, 10, 11, 12, 13, 14, 15])"
proof -
  have h: "length [1, 2, 1, 1, 2, 3 :: u32] \<le> NSLOTS"
     "list_all (\<lambda>x. unat x < NRESTS) [1, 2, 1, 1, 2, 3 :: u32]"
    by (simp_all add: NSLOTS_64 NRESTS_16)
  have e: "map (\<lambda>k. (accepted [1, 2, 1, 1, 2, 3 :: u32] k,
                if accepted [1, 2, 1, 1, 2, 3 :: u32] k
                then map of_nat (filter (accepted [1, 2, 1, 1, 2, 3 :: u32])
                        (same_before [1, 2, 1, 1, 2, 3 :: u32] k))
                else [])) [0..<length [1, 2, 1, 1, 2, 3 :: u32]]
       = [(True, []), (True, []), (True, [0]), (True, [0, 2]), (True, [1]),
          (True, [] :: u32 list)]"
     "map (\<lambda>k. (True, map of_nat (same_before [1, 2, 1, 1, 2, 3 :: u32] k)))
          [0..<length [1, 2, 1, 1, 2, 3 :: u32]]
       = [(True, []), (True, []), (True, [0]), (True, [0, 2]), (True, [1]),
          (True, [] :: u32 list)]"
    by code_simp+
  have a: "feed 0 [1, 2, 1, 1, 2, 3] (clear cd_junk)
      = Some [(True, []), (True, []), (True, [0]), (True, [0, 2]), (True, [1]), (True, [])]
    \<and> feed_bm 0 [1, 2, 1, 1, 2, 3] (clear_bm bm_junk)
      = Some [(True, []), (True, []), (True, [0]), (True, [0, 2]), (True, [1]), (True, [])]"
    using finder_yields_earlier_partners [OF h, of cd_junk bm_junk] by (simp only: e)
  have g: "length (replicate 17 (3 :: u32)) \<le> NSLOTS"
     "list_all (\<lambda>x. unat x < NRESTS) (replicate 17 (3 :: u32))"
    by (simp_all add: NSLOTS_64 NRESTS_16 list_all_iff)
  have f: "map (\<lambda>k. (accepted (replicate 17 (3 :: u32)) k,
                if accepted (replicate 17 (3 :: u32)) k
                then map of_nat (filter (accepted (replicate 17 (3 :: u32)))
                        (same_before (replicate 17 (3 :: u32)) k))
                else [])) [0..<length (replicate 17 (3 :: u32))] ! 16
       = (False, ([] :: u32 list))"
     "map (\<lambda>k. (True, map of_nat (same_before (replicate 17 (3 :: u32)) k)))
          [0..<length (replicate 17 (3 :: u32))] ! 16
       = (True, [0, 1, 2, 3, 4, 5, 6, 7, 8, 9, 10, 11, 12, 13, 14, 15 :: u32])"
    by code_simp+
  have b: "map_option (\<lambda>res. res ! 16) (feed 0 (replicate 17 3) (clear cd_junk))
       = Some (False, [])
    \<and> map_option (\<lambda>res. res ! 16) (feed_bm 0 (replicate 17 3) (clear_bm bm_junk))
       = Some (True, [0, 1, 2, 3, 4, 5, 6, 7, 8, 9, 10, 11, 12, 13, 14, 15])"
    using finder_yields_earlier_partners [OF g, of cd_junk bm_junk] f by simp
  show ?thesis using h a g b by blast
qed

subsection \<open>The index list\<close>

lemma swap_loop:
  "n \<le> sz \<Longrightarrow>
   fold (\<lambda>i m. (let tmp = m (off + i)
                      in m(off + i := m (off + sz + i), off + sz + i := tmp))) [0..<n] m
   = (\<lambda>i. if off \<le> i \<and> i < off + n then m (i + sz)
          else if off + sz \<le> i \<and> i < off + sz + n then m (i - sz) else m i)"
proof (induction n)
  case 0
  then show ?case by (auto simp: fun_eq_iff)
next
  case (Suc n)
  have "off + sz + n = off + n + sz" by simp
  then have "m (off + sz + n) = m (off + n + sz)" by (rule arg_cong)
  with Suc show ?case by (auto simp: fun_eq_iff Let_def)
qed

lemma orderindices_eq:
  "orderindices m off sz =
     (if m (off + sz) < m off then
        (\<lambda>i. if off \<le> i \<and> i < off + sz then m (i + sz)
             else if off + sz \<le> i \<and> i < off + 2 * sz then m (i - sz) else m i)
      else m)"
proof (cases "m (off + sz) < m off")
  case True
  then show ?thesis
    unfolding orderindices_def by (subst swap_loop) (auto simp: fun_eq_iff)
next
  case False
  then show ?thesis by (simp add: orderindices_def)
qed

lemma leaves_length:
  "leaves0 P h r t = Some xs \<Longrightarrow> length xs = 2 ^ r"
  "leaves1 P h r t = Some xs \<Longrightarrow> length xs = 2 ^ r"
proof (induction P h r t and P h r t arbitrary: xs and xs rule: leaves0_leaves1.induct)
  case (1 P h t)
  then show ?case by auto
next
  case (2 P h r t)
  then show ?case by (auto split: option.splits if_splits)
next
  case (3 P h t)
  then show ?case by simp
next
  case (4 P h r t)
  then show ?case by (auto split: option.splits if_splits)
qed

lemma store_append:
  "store (store m off xs) (off + length xs) ys = store m off (xs @ ys)"
  by (auto simp: store_def fun_eq_iff nth_append)

lemma store_swap:
  assumes "length xs = sz" "length ys = sz"
  shows "(\<lambda>i. if off \<le> i \<and> i < off + sz then store m off (xs @ ys) (i + sz)
             else if off + sz \<le> i \<and> i < off + 2 * sz then store m off (xs @ ys) (i - sz)
             else store m off (xs @ ys) i)
         = store m off (ys @ xs)"
proof
  fix i
  have e: "i - (sz + off) = i - (off + sz)" by simp
  show "(if off \<le> i \<and> i < off + sz then store m off (xs @ ys) (i + sz)
             else if off + sz \<le> i \<and> i < off + 2 * sz then store m off (xs @ ys) (i - sz)
             else store m off (xs @ ys) i)
         = store m off (ys @ xs) i"
    using assms e by (auto simp: store_def nth_append)
qed

lemma orderindices_store:
  assumes "length xs = sz" "length ys = sz" "0 < sz"
  shows "orderindices (store m off (xs @ ys)) off sz
         = store m off (if hd xs > hd ys then ys @ xs else xs @ ys)"
proof -
  have ne: "xs \<noteq> []" "ys \<noteq> []" using assms by auto
  have a: "store m off (xs @ ys) off = hd xs"
    using assms ne by (simp add: store_def nth_append hd_conv_nth)
  have b: "store m off (xs @ ys) (off + sz) = hd ys"
    using assms ne by (simp add: store_def nth_append hd_conv_nth)
  show ?thesis
    unfolding orderindices_eq a b using store_swap [OF assms(1,2)] by simp
qed

lemma listindices_leaves:
  "listindices0 P h r t m off = map_option (store m off) (leaves0 P h r t)"
  "listindices1 P h r t m off = map_option (store m off) (leaves1 P h r t)"
proof (induction P h r t m off and P h r t m off rule: listindices0_listindices1.induct)
  case (1 P h t indices off)
  show ?case by (auto simp: store_def fun_eq_iff)
next
  case (2 P h r t indices off)
  show ?case
  proof (cases "trees_get P h r (unat (bucketid t)) (unat (slotid0 t))")
    case None then show ?thesis by simp
  next
    case (Some a)
    note A = Some
    show ?thesis
    proof (cases "trees_get P h r (unat (bucketid t)) (unat (slotid1 t))")
      case None then show ?thesis using A by simp
    next
      case (Some b)
      note B = Some
      show ?thesis
      proof (cases "leaves1 P h r (attr a)")
        case None
        then show ?thesis using A B "2.IH"(1) [OF A B] by simp
      next
        case (Some xs)
        note X = Some
        have lx: "length xs = 2 ^ r" using X by (rule leaves_length)
        have m1: "listindices1 P h r (attr a) indices off = Some (store indices off xs)"
          using "2.IH"(1) [OF A B] X by simp
        show ?thesis
        proof (cases "leaves1 P h r (attr b)")
          case None
          then show ?thesis using A B X m1 "2.IH"(2) [OF A B m1] by simp
        next
          case (Some ys)
          have ly: "length ys = 2 ^ r" using Some by (rule leaves_length)
          have m2: "listindices1 P h r (attr b) (store indices off xs) (off + 2 ^ r)
              = Some (store indices off (xs @ ys))"
            using "2.IH"(2) [OF A B m1] Some lx store_append [of indices off xs ys] by simp
          show ?thesis
            using A B X Some m1 m2 orderindices_store [OF lx ly, of indices off] by simp
        qed
      qed
    qed
  qed
next
  case (3 P h t indices off)
  show ?case by simp
next
  case (4 P h r t indices off)
  show ?case
  proof (cases "trees_get P h r (unat (bucketid t)) (unat (slotid0 t))")
    case None then show ?thesis by simp
  next
    case (Some a)
    note A = Some
    show ?thesis
    proof (cases "trees_get P h r (unat (bucketid t)) (unat (slotid1 t))")
      case None then show ?thesis using A by simp
    next
      case (Some b)
      note B = Some
      show ?thesis
      proof (cases "leaves0 P h r (attr a)")
        case None
        then show ?thesis using A B "4.IH"(1) [OF A B] by simp
      next
        case (Some xs)
        note X = Some
        have lx: "length xs = 2 ^ r" using X by (rule leaves_length)
        have m1: "listindices0 P h r (attr a) indices off = Some (store indices off xs)"
          using "4.IH"(1) [OF A B] X by simp
        show ?thesis
        proof (cases "leaves0 P h r (attr b)")
          case None
          then show ?thesis using A B X m1 "4.IH"(2) [OF A B m1] by simp
        next
          case (Some ys)
          have ly: "length ys = 2 ^ r" using Some by (rule leaves_length)
          have m2: "listindices0 P h r (attr b) (store indices off xs) (off + 2 ^ r)
              = Some (store indices off (xs @ ys))"
            using "4.IH"(2) [OF A B m1] Some lx store_append [of indices off xs ys] by simp
          show ?thesis
            using A B X Some m1 m2 orderindices_store [OF lx ly, of indices off] by simp
        qed
      qed
    qed
  qed
qed

lemma dup_check:
  assumes "sorted ys"
  shows "list_ex (\<lambda>i. ys ! i \<le> ys ! (i - 1)) [1..<length ys] \<longleftrightarrow> \<not> distinct ys"
proof -
  have "distinct ys \<longleftrightarrow> sorted_wrt (<) ys"
    using assms by (simp add: strict_sorted_iff)
  also have "\<dots> \<longleftrightarrow> (\<forall>i. Suc i < length ys \<longrightarrow> ys ! i < ys ! Suc i)"
    by (rule sorted_wrt_iff_nth_Suc_transp) (auto simp: transp_on_def)
  also have "\<dots> \<longleftrightarrow> (\<forall>i\<in>set [1..<length ys]. \<not> ys ! i \<le> ys ! (i - 1))"
  proof
    assume a: "\<forall>i. Suc i < length ys \<longrightarrow> ys ! i < ys ! Suc i"
    show "\<forall>i\<in>set [1..<length ys]. \<not> ys ! i \<le> ys ! (i - 1)"
    proof
      fix i assume "i \<in> set [1..<length ys]"
      then have "Suc (i - 1) < length ys" "Suc (i - 1) = i" by simp_all
      with a [rule_format, of "i - 1"] show "\<not> ys ! i \<le> ys ! (i - 1)" by (simp add: not_le)
    qed
  next
    assume b: "\<forall>i\<in>set [1..<length ys]. \<not> ys ! i \<le> ys ! (i - 1)"
    show "\<forall>i. Suc i < length ys \<longrightarrow> ys ! i < ys ! Suc i"
    proof (intro allI impI)
      fix i assume "Suc i < length ys"
      then have "Suc i \<in> set [1..<length ys]" by simp
      with b have "\<not> ys ! Suc i \<le> ys ! (Suc i - 1)" by blast
      then show "ys ! i < ys ! Suc i" by (simp add: not_le)
    qed
  qed
  finally show ?thesis by (simp add: list_ex_iff)
qed

lemma map_store: "length xs = n \<Longrightarrow> map (store m 0 xs) [0..<n] = xs"
  by (auto simp: store_def intro: nth_equalityI)

text \<open>What candidate does, in terms of the list of leaves.\<close>

lemma candidate_eq:
  "candidate P t st =
     (case leaves1 P (hta st) (WK P) t of
        None \<Rightarrow> None
      | Some xs \<Rightarrow>
          if \<not> distinct xs then Some st
          else if unat (nsols st) < MAXSOLS then
            Some (st\<lparr>nsols := nsols st + 1,
                     sols := (sols st)(unat (nsols st) := store (sols st (unat (nsols st))) 0 xs)\<rparr>)
          else Some (st\<lparr>nsols := nsols st + 1\<rparr>))"
proof (cases "leaves1 P (hta st) (WK P) t")
  case None
  then show ?thesis by (simp add: candidate_def listindices_leaves)
next
  case (Some xs)
  have len: "length xs = PROOFSIZE P"
    using leaves_length(2) [OF Some] by (simp add: PROOFSIZE_def)
  have m: "map (store (\<lambda>_. 0) 0 xs) [0..<PROOFSIZE P] = xs"
    using len by (rule map_store)
  have d: "list_ex (\<lambda>i. qsort_u32 xs ! i \<le> qsort_u32 xs ! (i - 1)) [1..<PROOFSIZE P]
       \<longleftrightarrow> \<not> distinct xs"
    using dup_check [of "qsort_u32 xs"] len by (simp add: qsort_u32_def)
  show ?thesis
    using Some d by (simp add: candidate_def listindices_leaves m Let_def)
qed

lemma leaves_tree_ordered:
  "leaves0 P h r t = Some xs \<Longrightarrow> tree_ordered r xs"
  "leaves1 P h r t = Some xs \<Longrightarrow> tree_ordered r xs"
proof (induction P h r t and P h r t arbitrary: xs and xs rule: leaves0_leaves1.induct)
  case (1 P h t)
  then show ?case by simp
next
  case (2 P h r t)
  from "2.prems" obtain a b ys zs where
    A: "trees_get P h r (unat (bucketid t)) (unat (slotid0 t)) = Some a" and
    B: "trees_get P h r (unat (bucketid t)) (unat (slotid1 t)) = Some b" and
    Y: "leaves1 P h r (attr a) = Some ys" and Z: "leaves1 P h r (attr b) = Some zs" and
    X: "xs = (if hd ys > hd zs then zs @ ys else ys @ zs)"
    by (auto split: option.splits)
  have ly: "length ys = 2 ^ r" "length zs = 2 ^ r"
    using Y Z by (simp_all add: leaves_length)
  then have ne: "ys \<noteq> []" "zs \<noteq> []" by auto
  have oy: "tree_ordered r ys" using "2.IH"(1) [OF A B Y] .
  have oz: "tree_ordered r zs" using "2.IH"(2) [OF A B Y Z] .
  show ?case
    unfolding X using ly ne oy oz by (auto simp: nth_append hd_conv_nth)
next
  case (3 P h t)
  then show ?case by simp
next
  case (4 P h r t)
  from "4.prems" obtain a b ys zs where
    A: "trees_get P h r (unat (bucketid t)) (unat (slotid0 t)) = Some a" and
    B: "trees_get P h r (unat (bucketid t)) (unat (slotid1 t)) = Some b" and
    Y: "leaves0 P h r (attr a) = Some ys" and Z: "leaves0 P h r (attr b) = Some zs" and
    X: "xs = (if hd ys > hd zs then zs @ ys else ys @ zs)"
    by (auto split: option.splits)
  have ly: "length ys = 2 ^ r" "length zs = 2 ^ r"
    using Y Z by (simp_all add: leaves_length)
  then have ne: "ys \<noteq> []" "zs \<noteq> []" by auto
  have oy: "tree_ordered r ys" using "4.IH"(1) [OF A B Y] .
  have oz: "tree_ordered r zs" using "4.IH"(2) [OF A B Y Z] .
  show ?case
    unfolding X using ly ne oy oz by (auto simp: nth_append hd_conv_nth)
qed

text \<open>Every index that a walk produces from an inner node is held by a slot of layer 0.\<close>

lemma leaves_stored:
  "leaves0 P h r t = Some xs \<Longrightarrow> 0 < r \<Longrightarrow>
     \<forall>x\<in>set xs. \<exists>b s a. trees_get P h 0 b s = Some a \<and> x = getindex (attr a)"
  "leaves1 P h r t = Some xs \<Longrightarrow>
     \<forall>x\<in>set xs. \<exists>b s a. trees_get P h 0 b s = Some a \<and> x = getindex (attr a)"
proof (induction P h r t and P h r t arbitrary: xs and xs rule: leaves0_leaves1.induct)
  case (1 P h t)
  then show ?case by simp
next
  case (2 P h r t)
  from "2.prems"(1) obtain a b ys zs where
    A: "trees_get P h r (unat (bucketid t)) (unat (slotid0 t)) = Some a" and
    B: "trees_get P h r (unat (bucketid t)) (unat (slotid1 t)) = Some b" and
    Y: "leaves1 P h r (attr a) = Some ys" and Z: "leaves1 P h r (attr b) = Some zs" and
    X: "xs = (if hd ys > hd zs then zs @ ys else ys @ zs)"
    by (auto split: option.splits)
  show ?case
    unfolding X using "2.IH"(1) [OF A B Y] "2.IH"(2) [OF A B Y Z] by auto
next
  case (3 P h t)
  then show ?case by simp
next
  case (4 P h r t)
  from "4.prems"(1) obtain a b ys zs where
    A: "trees_get P h r (unat (bucketid t)) (unat (slotid0 t)) = Some a" and
    B: "trees_get P h r (unat (bucketid t)) (unat (slotid1 t)) = Some b" and
    Y: "leaves0 P h r (attr a) = Some ys" and Z: "leaves0 P h r (attr b) = Some zs" and
    X: "xs = (if hd ys > hd zs then zs @ ys else ys @ zs)"
    by (auto split: option.splits)
  show ?case
  proof (cases r)
    case 0
    then have "ys = [getindex (attr a)]" "zs = [getindex (attr b)]" using Y Z by simp_all
    then show ?thesis unfolding X using A B 0 by auto
  next
    case (Suc n)
    then have r: "0 < r" by simp
    show ?thesis
      unfolding X using "4.IH"(1) [OF A B Y r] "4.IH"(2) [OF A B Y Z r] by auto
  qed
qed

lemma listindices_first_le:
  assumes "listindices0 P h (Suc r) t m off = Some m' \<or> listindices1 P h (Suc r) t m off = Some m'"
  shows "m' off \<le> m' (off + 2 ^ r)"
proof -
  from assms obtain xs where x: "leaves0 P h (Suc r) t = Some xs \<or> leaves1 P h (Suc r) t = Some xs"
    and m': "m' = store m off xs"
    by (auto simp: listindices_leaves)
  have len: "length xs = 2 ^ Suc r" using x leaves_length by blast
  have "tree_ordered (Suc r) xs" using x leaves_tree_ordered by blast
  then have "hd xs \<le> xs ! (2 ^ r)" by simp
  moreover have "xs \<noteq> []" using len by auto
  ultimately show ?thesis using len by (simp add: m' store_def hd_conv_nth)
qed

text \<open>The tree of eight leaves, evaluated level by level.\<close>

lemma P80_consts: "WK P80 = 3" "BUCKBITS P80 = 16" "NBUCKETS P80 = 65536" "PROOFSIZE P80 = 8" "DIGITBITS P80 = 20"
  by (simp_all add: P80_def BUCKBITS_def DIGITBITS_def RESTBITS_def NBUCKETS_def PROOFSIZE_def)

lemma setindex_small: "unat v < 4194304 \<Longrightarrow> getindex (setindex P80 v t) = v"
  by (simp add: getindex_setindex_take_bit take_bit_unat_self P80_consts SLOTBITS_def RESTBITS_def)


lemma arena8_leaf:
  "getindex (attr (heap arena8 0 0 0)) = 1"
  "getindex (attr (heap arena8 0 0 (Suc 0))) = 2"
  "getindex (attr (heap arena8 0 0 2)) = 3"
  "getindex (attr (heap arena8 0 0 3)) = 4"
  "getindex (attr (heap arena8 0 0 4)) = 5"
  "getindex (attr (heap arena8 0 0 5)) = 6"
  "getindex (attr (heap arena8 0 0 6)) = 7"
  "getindex (attr (heap arena8 0 0 7)) = 8"
  by (simp_all add: arena8_def setindex_small)

lemma arena8_get:
  "s < 64 \<Longrightarrow> trees_get P80 arena8 0 0 s = Some (heap arena8 0 0 s)"
  "s < 64 \<Longrightarrow> trees_get P80 arena8 (Suc 0) 0 s = Some (heap arena8 1 0 s)"
  "s < 64 \<Longrightarrow> trees_get P80 arena8 (Suc (Suc 0)) 0 s = Some (heap arena8 0 1 s)"
  by (simp_all add: trees_get_def trees_ok_def P80_consts NSLOTS_64)

lemma node_sel: "bucketid (node b i j) = b" "slotid0 (node b i j) = i" "slotid1 (node b i j) = j"
  by (simp_all add: node_def)

lemma arena8_node:
  "attr (heap arena8 (Suc 0) 0 0) = node 0 1 2" "attr (heap arena8 (Suc 0) 0 (Suc 0)) = node 0 0 3"
  "attr (heap arena8 (Suc 0) 0 2) = node 0 5 6" "attr (heap arena8 (Suc 0) 0 3) = node 0 4 7"
  "attr (heap arena8 0 (Suc 0) 0) = node 0 0 1" "attr (heap arena8 0 (Suc 0) (Suc 0)) = node 0 2 3"
  by (simp_all add: arena8_def)

lemma arena8_l1:
  "leaves1 P80 arena8 (Suc 0) (node 0 0 3) = Some [1, 4]"
  "leaves1 P80 arena8 (Suc 0) (node 0 1 2) = Some [2, 3]"
  "leaves1 P80 arena8 (Suc 0) (node 0 4 7) = Some [5, 8]"
  "leaves1 P80 arena8 (Suc 0) (node 0 5 6) = Some [6, 7]"
  by (simp_all add: node_sel arena8_get arena8_leaf)

lemma arena8_l2:
  "leaves0 P80 arena8 (Suc (Suc 0)) (node 0 0 1) = Some [1, 4, 2, 3]"
  "leaves0 P80 arena8 (Suc (Suc 0)) (node 0 2 3) = Some [5, 8, 6, 7]"
  by (subst leaves0.simps, simp add: node_sel arena8_get arena8_node arena8_l1 del: leaves0.simps leaves1.simps)+

lemma arena8_l3: "leaves1 P80 arena8 (Suc (Suc (Suc 0))) top8 = Some [1, 4, 2, 3, 5, 8, 6, 7]"
  unfolding top8_def
  by (subst leaves1.simps, simp add: node_sel arena8_get arena8_node arena8_l2 del: leaves0.simps leaves1.simps)

lemma arena8_leaves: "leaves1 P80 arena8 (WK P80) top8 = Some [1, 4, 2, 3, 5, 8, 6, 7]"
  using arena8_l3 by (simp add: P80_consts eval_nat_numeral)

lemma arena8_candidate: "candidate P80 top8 (st8 0) = Some st8_after"
  by (simp add: candidate_eq st8_def equi_new_def mem_junk_def arena8_leaves st8_after_def MAXSOLS_def)

lemma arena8_sols: "map (sols st8_after 0) [0..<PROOFSIZE P80] = [1, 4, 2, 3, 5, 8, 6, 7]"
  by (simp add: st8_after_def map_store P80_consts)

subsection \<open>Canonical order, the solution counter and the recorded proofs\<close>

text \<open>
  C6. orderindices swaps the two halves of \<open>sz\<close> entries exactly when
  \<open>indices[0] > indices[sz]\<close> and otherwise leaves the array as it is. So after every
  call of listindices0 or listindices1 for an internal node, the first index of the left
  half is at most the first index of the right half; and after a whole walk this holds at
  every internal node of the tree.
\<close>

theorem orderindices_canonical:
  "orderindices m off sz =
     (if m (off + sz) < m off then
        (\<lambda>i. if off \<le> i \<and> i < off + sz then m (i + sz)
             else if off + sz \<le> i \<and> i < off + 2 * sz then m (i - sz) else m i)
      else m)
   \<and> (listindices0 P h (Suc r) t m off = Some m' \<longrightarrow> m' off \<le> m' (off + 2 ^ r))
   \<and> (listindices1 P h (Suc r) t m off = Some m' \<longrightarrow> m' off \<le> m' (off + 2 ^ r))
   \<and> (listindices1 P h r t m off = Some m' \<longrightarrow> tree_ordered r (map m' [off..<off + 2 ^ r]))"
proof -
  have "tree_ordered r (map m' [off..<off + 2 ^ r])" if a: "listindices1 P h r t m off = Some m'"
  proof -
    from a obtain xs where x: "leaves1 P h r t = Some xs" and m': "m' = store m off xs"
      by (auto simp: listindices_leaves)
    have len: "length xs = 2 ^ r" using x by (rule leaves_length)
    have "map m' [off..<off + 2 ^ r] = xs"
      using len by (auto simp: m' store_def intro: nth_equalityI)
    then show ?thesis using leaves_tree_ordered(2) [OF x] by simp
  qed
  then show ?thesis
    using orderindices_eq [of m off sz] listindices_first_le [of P h r t m off m'] by blast
qed

theorem orderindices_canonical_witness:
  "listindices1 P80 arena8 (Suc 2) top8 (\<lambda>_. 0) 0
     = Some (store (\<lambda>_. 0) 0 [1, 4, 2, 3, 5, 8, 6, 7])
   \<and> store (\<lambda>_. 0) 0 [1, 4, 2, 3, 5, 8, 6, 7] 0
       \<le> store (\<lambda>_. 0) 0 [1, 4, 2, 3, 5, 8, 6, 7] (0 + 2 ^ 2)
   \<and> map (orderindices (store (\<lambda>_. 0) 0 [5, 6, 1, 2]) 0 2) [0, 1, 2, 3] = [1, 2, 5, 6]
   \<and> map (orderindices (store (\<lambda>_. 0) 0 [1, 6, 5, 2]) 0 2) [0, 1, 2, 3] = [1, 6, 5, 2]"
proof -
  have e: "Suc 2 = Suc (Suc (Suc 0))" by simp
  have li: "listindices1 P80 arena8 (Suc 2) top8 (\<lambda>_. 0) 0
     = Some (store (\<lambda>_. 0) 0 [1, 4, 2, 3, 5, 8, 6, 7])"
    unfolding e by (simp only: listindices_leaves arena8_l3 option.map)
  note w = orderindices_canonical [where off = 0 and sz = 2 and P = P80 and h = arena8
      and r = 2 and t = top8 and m' = "store (\<lambda>_. 0) 0 [1, 4, 2, 3, 5, 8, 6, 7]"]
  have a: "store (\<lambda>_. 0) 0 [1, 4, 2, 3, 5, 8, 6, 7] 0
       \<le> store (\<lambda>_. 0) 0 [1, 4, 2, 3, 5, 8, 6, 7] (0 + 2 ^ 2)"
    using w [where m = "\<lambda>_. 0"] li by blast
  have b: "map (orderindices (store (\<lambda>_. 0) 0 [5, 6, 1, 2]) 0 2) [0, 1, 2, 3] = [1, 2, 5, 6]"
    using w [where m = "store (\<lambda>_. 0) 0 [5, 6, 1, 2]"] by (simp add: store_def)
  have c: "map (orderindices (store (\<lambda>_. 0) 0 [1, 6, 5, 2]) 0 2) [0, 1, 2, 3] = [1, 6, 5, 2]"
    using w [where m = "store (\<lambda>_. 0) 0 [1, 6, 5, 2]"] by (simp add: store_def)
  show ?thesis using li a b c by blast
qed

text \<open>
  C9. When candidate returns, the first walk has succeeded; if its indices are pairwise
  distinct (which is what the loop over the sorted copy tests) the counter \<open>nsols\<close> is
  one more than before, whatever its value, and otherwise nothing has changed. An entry of
  \<open>sols\<close> changes only in row \<open>nsols\<close>, only when that row is below MAXSOLS, and only
  at a position below PROOFSIZE; from MAXSOLS on, \<open>sols\<close> is left as it is while the
  counter still grows, so the counter itself can exceed MAXSOLS.
\<close>

theorem candidate_claims_then_stores:
  assumes "candidate P t st = Some st'"
  shows "(\<exists>prf0. listindices1 P (hta st) (WK P) t (\<lambda>_. 0) 0 = Some prf0
           \<and> (distinct (map prf0 [0..<PROOFSIZE P]) \<longrightarrow> nsols st' = nsols st + 1)
           \<and> (\<not> distinct (map prf0 [0..<PROOFSIZE P]) \<longrightarrow> st' = st))
     \<and> (\<forall>i j. sols st' i j \<noteq> sols st i j \<longrightarrow>
           i = unat (nsols st) \<and> i < MAXSOLS \<and> j < PROOFSIZE P \<and> nsols st' = nsols st + 1)
     \<and> (MAXSOLS \<le> unat (nsols st) \<longrightarrow> sols st' = sols st)"
proof (intro conjI)
  from assms obtain xs where x: "leaves1 P (hta st) (WK P) t = Some xs"
    by (auto simp: candidate_eq split: option.splits)
  have len: "length xs = PROOFSIZE P"
    using leaves_length(2) [OF x] by (simp add: PROOFSIZE_def)
  have m: "map (store (\<lambda>_. 0) 0 xs) [0..<PROOFSIZE P] = xs"
    using len by (rule map_store)
  show "\<exists>prf0. listindices1 P (hta st) (WK P) t (\<lambda>_. 0) 0 = Some prf0
           \<and> (distinct (map prf0 [0..<PROOFSIZE P]) \<longrightarrow> nsols st' = nsols st + 1)
           \<and> (\<not> distinct (map prf0 [0..<PROOFSIZE P]) \<longrightarrow> st' = st)"
    using assms x m by (auto simp: candidate_eq listindices_leaves split: if_splits)
  show "\<forall>i j. sols st' i j \<noteq> sols st i j \<longrightarrow>
           i = unat (nsols st) \<and> i < MAXSOLS \<and> j < PROOFSIZE P \<and> nsols st' = nsols st + 1"
    using assms x len by (auto simp: candidate_eq store_def split: if_splits)
  show "MAXSOLS \<le> unat (nsols st) \<longrightarrow> sols st' = sols st"
    using assms x by (auto simp: candidate_eq split: if_splits)
qed

theorem candidate_claims_then_stores_witness:
  "candidate P80 top8 (st8 8) = Some ((st8 8)\<lparr>nsols := 9\<rparr>)
   \<and> MAXSOLS \<le> unat (nsols (st8 8))
   \<and> sols ((st8 8)\<lparr>nsols := 9\<rparr>) = sols (st8 8)
   \<and> MAXSOLS < unat (nsols ((st8 8)\<lparr>nsols := 9\<rparr>))
   \<and> candidate P80 top8 (st8 0) = Some st8_after
   \<and> nsols st8_after = nsols (st8 0) + 1"
proof -
  have a: "candidate P80 top8 (st8 8) = Some ((st8 8)\<lparr>nsols := 9\<rparr>)"
    by (simp add: candidate_eq st8_def equi_new_def mem_junk_def arena8_leaves MAXSOLS_def)
  have m: "MAXSOLS \<le> unat (nsols (st8 8))" by (simp add: st8_def MAXSOLS_def)
  have "sols ((st8 8)\<lparr>nsols := 9\<rparr>) = sols (st8 8)"
    using candidate_claims_then_stores [OF a] m by blast
  moreover have "distinct (map (store (\<lambda>_. 0) 0 [1, 4, 2, 3, 5, 8, 6, 7])
       [0..<PROOFSIZE P80])"
    by (simp add: map_store P80_consts)
  then have "nsols st8_after = nsols (st8 0) + 1"
    using candidate_claims_then_stores [OF arena8_candidate]
    by (simp add: listindices_leaves arena8_leaves st8_def equi_new_def mem_junk_def)
  ultimately show ?thesis
    using a m arena8_candidate by (simp add: st8_def MAXSOLS_def)
qed

text \<open>
  C1, as amended. Every solution that candidate records into \<open>sols\<close> has PROOFSIZE
  pairwise distinct 32-bit indices, each of them the index held by a slot of layer 0, and
  its sorted copy is strictly increasing. The recorded sequence itself is in tree order:
  at every internal node the first index of the left half is at most (so, the indices
  being distinct, less than) the first index of the right half.
\<close>

theorem recorded_solution_shape:
  assumes c: "candidate P t st = Some st'"
    and rec: "nsols st' \<noteq> nsols st" and lt: "unat (nsols st) < MAXSOLS"
  shows "length (map (sols st' (unat (nsols st))) [0..<PROOFSIZE P]) = PROOFSIZE P
     \<and> distinct (map (sols st' (unat (nsols st))) [0..<PROOFSIZE P])
     \<and> sorted_wrt (<) (qsort_u32 (map (sols st' (unat (nsols st))) [0..<PROOFSIZE P]))
     \<and> list_all (\<lambda>x. \<exists>b s a. trees_get P (hta st) 0 b s = Some a \<and> x = getindex (attr a))
          (map (sols st' (unat (nsols st))) [0..<PROOFSIZE P])
     \<and> tree_ordered (WK P) (map (sols st' (unat (nsols st))) [0..<PROOFSIZE P])"
proof -
  from c obtain xs where x: "leaves1 P (hta st) (WK P) t = Some xs"
    by (auto simp: candidate_eq split: option.splits)
  have len: "length xs = PROOFSIZE P"
    using leaves_length(2) [OF x] by (simp add: PROOFSIZE_def)
  have d: "distinct xs" using c x rec by (auto simp: candidate_eq split: if_splits)
  have "sols st' (unat (nsols st)) = store (sols st (unat (nsols st))) 0 xs"
    using c x d lt by (auto simp: candidate_eq)
  then have s: "map (sols st' (unat (nsols st))) [0..<PROOFSIZE P] = xs"
    using len by (simp add: map_store)
  have "sorted_wrt (<) (qsort_u32 xs)"
    using d by (simp add: qsort_u32_def strict_sorted_iff)
  moreover have "list_all (\<lambda>x. \<exists>b s a. trees_get P (hta st) 0 b s = Some a
       \<and> x = getindex (attr a)) xs"
    using leaves_stored(2) [OF x] by (simp add: list_all_iff)
  moreover have "tree_ordered (WK P) xs" using x by (rule leaves_tree_ordered)
  ultimately show ?thesis unfolding s using len d by simp
qed

theorem recorded_solution_shape_witness:
  "candidate P80 top8 (st8 0) = Some st8_after
   \<and> nsols st8_after \<noteq> nsols (st8 0)
   \<and> unat (nsols (st8 0)) < MAXSOLS
   \<and> map (sols st8_after (unat (nsols (st8 0)))) [0..<PROOFSIZE P80]
       = [1, 4, 2, 3, 5, 8, 6, 7]
   \<and> distinct [1, 4, 2, 3, 5, 8, 6, 7 :: u32]
   \<and> sorted_wrt (<) (qsort_u32 [1, 4, 2, 3, 5, 8, 6, 7])
   \<and> tree_ordered (WK P80) [1, 4, 2, 3, 5, 8, 6, 7]"
proof -
  have h: "candidate P80 top8 (st8 0) = Some st8_after"
      "nsols st8_after \<noteq> nsols (st8 0)" "unat (nsols (st8 0)) < MAXSOLS"
    using arena8_candidate
    by (simp_all add: st8_def st8_after_def equi_new_def mem_junk_def MAXSOLS_def)
  have s: "map (sols st8_after (unat (nsols (st8 0)))) [0..<PROOFSIZE P80]
       = [1, 4, 2, 3, 5, 8, 6, 7]"
    using arena8_sols by (simp add: st8_def equi_new_def mem_junk_def)
  show ?thesis
    using h s recorded_solution_shape [OF h] unfolding s by blast
qed

text \<open>
  The tree of \<open>arena8\<close> is recorded as \<open>1, 4, 2, 3, 5, 8, 6, 7\<close>: the second walk
  writes the tree order into \<open>sols\<close>, and only the local copy was sorted. The recorded
  sequence is not increasing.
\<close>

theorem recorded_solution_counterexample:
  "candidate P80 top8 (st8 0) = Some st8_after
   \<and> map (sols st8_after 0) [0..<PROOFSIZE P80] = [1, 4, 2, 3, 5, 8, 6, 7]
   \<and> \<not> sorted_wrt (<) (map (sols st8_after 0) [0..<PROOFSIZE P80])"
  unfolding arena8_sols using arena8_candidate by simp
subsection \<open>Layer 0\<close>

lemma P200_consts: "WK P200 = 9" "WN P200 = 200" "XINTREE P200" "BUCKBITS P200 = 16" "NBUCKETS P200 = 65536"
  "DIGITBITS P200 = 20" "HASHESPERBLAKE P200 = 2" "NBLOCKS P200 = 1048576" "NHASHES P200 = 2097152"
  by (simp_all add: P200_def BUCKBITS_def DIGITBITS_def RESTBITS_def NBUCKETS_def HASHESPERBLAKE_def NBLOCKS_def NHASHES_def)

lemma P200_layout0: "hashsize P200 0 = 23" "htlayout_init P200 0 = \<lparr>prevhashunits = 0, nexthashunits = 6, dunits = 0, prevbo = 0, nextbo = 1\<rparr>"
  by (simp_all add: hashsize_def htlayout_init_def hashwords_def P200_consts Let_def)

lemma P200_layout1: "htlayout_init P200 1 = \<lparr>prevhashunits = 6, nexthashunits = 5, dunits = 1, prevbo = 1, nextbo = 0\<rparr>"
  by (simp_all add: hashsize_def htlayout_init_def hashwords_def P200_consts Let_def)

text \<open>The two outcomes of a slot reservation in digit0.\<close>

lemma digit0_hash_full:
  assumes bits: "digit0_bits P (\<lambda>k. hashv (i * WN P div 8 + k)) = Some (bid, xh)"
    and b: "unat bid < NBUCKETS P"
    and full: "NSLOTS \<le> unat (nslots st 0 (unat bid))"
  shows "digit0_hash P leaf0 htl hb block hashv i st =
     Some (st\<lparr>nslots := (nslots st)(0 := (nslots st 0)(unat bid := nslots st 0 (unat bid) + 1)),
              bfull := bfull st + 1\<rparr>)"
  using assms by (simp add: digit0_hash_def getslot_def Let_def)

lemma digit0_hash_store:
  assumes bits: "digit0_bits P (\<lambda>k. hashv (i * WN P div 8 + k)) = Some (bid, xh)"
    and b: "unat bid < NBUCKETS P" and k: "0 < WK P"
    and room: "unat (nslots st 0 (unat bid)) < NSLOTS"
  shows "digit0_hash P leaf0 htl hb block hashv i st =
     Some (st\<lparr>nslots := (nslots st)(0 := (nslots st 0)(unat bid := nslots st 0 (unat bid) + 1)),
              hta := (hta st)\<lparr>heap := (heap (hta st))(0 := (heap (hta st) 0)(unat bid :=
                (heap (hta st) 0 (unat bid))(unat (nslots st 0 (unat bid)) :=
                  (heap (hta st) 0 (unat bid) (unat (nslots st 0 (unat bid))))
                  \<lparr>attr := (let leaf = setindex P (of_nat block * of_nat (HASHESPERBLAKE P) + of_nat i) leaf0
                            in if XINTREE P then leaf\<lparr>xhash := take_bit RESTBITS xh\<rparr> else leaf),
                    hash := memcpy (hash (heap (hta st) 0 (unat bid) (unat (nslots st 0 (unat bid)))))
                              (unat (nextbo htl)) (\<lambda>k. hashv (i * WN P div 8 + k))
                              (WN P div 8 - unat hb) (unat hb)\<rparr>)))\<rparr>\<rparr>)"
  using assms
  by (simp add: digit0_hash_def getslot_def Let_def trees_get_def trees_put_def trees_ok_def)

lemma cex_bits:
  assumes "i < 2"
  shows "digit0_bits P200 (\<lambda>k. blake_cex blk (i * WN P200 div 8 + k)) = Some (0, 0)"
proof -
  have "i = 0 \<or> i = 1" using assms by arith
  then show ?thesis
    by (auto simp: digit0_bits_def P200_consts RESTBITS_def blake_cex_def)
qed

lemma cex_hash_step:
  assumes inv: "cex_inv c st" and c: "c < 2 ^ 32 - 1" and i: "i < 2"
    and c0: "c = 0 \<longrightarrow> i = 0" and c1: "c = 1 \<longrightarrow> i = 1"
  shows "\<exists>st'. digit0_hash P200 lf (htlayout_init P200 0) (hashsize P200 0) block (blake_cex blk) i st
            = Some st' \<and> cex_inv (c + 1) st'"
proof -
  note bits = cex_bits [OF i, of blk]
  have u: "unat (of_nat c :: u32) = c" using c by (simp add: unat_of_nat)
  have n: "nslots st 0 0 = of_nat c" using inv by (simp add: cex_inv_def)
  have b: "unat (0 :: u32) < NBUCKETS P200" by (simp add: P200_consts)
  show ?thesis
  proof (cases "c < NSLOTS")
    case False
    then have full: "NSLOTS \<le> unat (nslots st 0 (unat (0 :: u32)))" by (simp add: n u)
    have c2: "2 \<le> c" using False by (simp add: NSLOTS_64)
    show ?thesis
      unfolding digit0_hash_full [OF bits b full]
      using inv c2 by (simp add: cex_inv_def)
  next
    case True
    then have room: "unat (nslots st 0 (unat (0 :: u32))) < NSLOTS" by (simp add: n u)
    have k: "0 < WK P200" by (simp add: P200_consts)
    have z: "hash (heap (hta st) 0 0 c) = (\<lambda>_. 0)" using inv by (simp add: cex_inv_def)
    have m0: "i = 0 \<Longrightarrow> memcpy (\<lambda>_. 0) (Suc 0) (\<lambda>k. blake_cex blk (i * 200 div 8 + k)) 2 23 = (\<lambda>_. 0)"
      by (auto simp: memcpy_def blake_cex_def fun_eq_iff)
    have m1: "i = 1 \<Longrightarrow> memcpy (\<lambda>_. 0) (Suc 0) (\<lambda>k. blake_cex blk (i * 200 div 8 + k)) 2 23
         = (\<lambda>j. if j = 9 then 1 else 0)"
      by (auto simp: memcpy_def blake_cex_def fun_eq_iff)
    show ?thesis
      unfolding digit0_hash_store [OF bits b k room]
      using inv c0 c1 m0 m1 z
      by (auto simp: cex_inv_def n u P200_consts P200_layout0 Let_def)
  qed
qed


lemma cex_inv_ctx: "cex_inv c st \<Longrightarrow> blake_ctx st = blake_cex \<and> nthreads st = 1"
  by (simp add: cex_inv_def)

lemma cex_block_step:
  assumes inv: "cex_inv (2 * b) st" and b: "b < NBLOCKS P200"
  shows "\<exists>st'. digit0_block P200 leaf0 (htlayout_init P200 0) (hashsize P200 0) b st = Some st'
            \<and> cex_inv (2 * (b + 1)) st'"
proof -
  have c: "2 * b < 2 ^ 32 - 1" "2 * b + 1 < 2 ^ 32 - 1" using b by (simp_all add: P200_consts)
  have i0: "(0::nat) < 2" "2 * b = 0 \<longrightarrow> (0::nat) = 0" "2 * b = 1 \<longrightarrow> (0::nat) = 1"
    by presburger+
  have i1: "(1::nat) < 2" "2 * b + 1 = 0 \<longrightarrow> (1::nat) = 0" "2 * b + 1 = 1 \<longrightarrow> (1::nat) = 1"
    by presburger+
  from cex_hash_step [OF inv c(1) i0, where lf = "leaf0 b 0" and block = b and blk = "of_nat b"]
  obtain st1 where s1: "digit0_hash P200 (leaf0 b 0) (htlayout_init P200 0) (hashsize P200 0) b
        (blake_cex (of_nat b)) 0 st = Some st1" and v1: "cex_inv (2 * b + 1) st1"
    by blast
  from cex_hash_step [OF v1 c(2) i1, where lf = "leaf0 b 1" and block = b and blk = "of_nat b"]
  obtain st2 where s2: "digit0_hash P200 (leaf0 b 1) (htlayout_init P200 0) (hashsize P200 0) b
        (blake_cex (of_nat b)) 1 st1 = Some st2" and v2: "cex_inv (2 * b + 1 + 1) st2"
    by blast
  have l: "[0..<HASHESPERBLAKE P200] = [0, 1]" by (simp add: P200_consts upt_rec)
  have ctx: "blake_ctx st (of_nat b) = blake_cex (of_nat b)"
    using cex_inv_ctx [OF inv] by simp
  have "digit0_block P200 leaf0 (htlayout_init P200 0) (hashsize P200 0) b st = Some st2"
    unfolding digit0_block_def l ctx using s1 s2 by simp
  moreover have "2 * b + 1 + 1 = 2 * (b + 1)" by simp
  ultimately show ?thesis using v2 by metis
qed

lemma cex_loop:
  assumes "cex_inv (2 * b) st" and "b \<le> NBLOCKS P200"
  shows "\<exists>st'. digit0_loop P200 leaf0 (htlayout_init P200 0) (hashsize P200 0) b st = Some st'
            \<and> cex_inv (2 * NBLOCKS P200) st'"
  using assms
proof (induction n \<equiv> "NBLOCKS P200 - b" arbitrary: b st)
  case 0
  then have e: "b = NBLOCKS P200" by simp
  have "digit0_loop P200 leaf0 (htlayout_init P200 0) (hashsize P200 0) b st = Some st"
    by (subst digit0_loop.simps) (simp add: e)
  then show ?case using "0.prems"(1) e by blast
next
  case (Suc n)
  then have lt: "b < NBLOCKS P200" by simp
  from cex_block_step [OF Suc.prems(1) lt]
  obtain st1 where s1: "digit0_block P200 leaf0 (htlayout_init P200 0) (hashsize P200 0) b st = Some st1"
    and v1: "cex_inv (2 * (b + 1)) st1" by blast
  have "b + 1 < 2 ^ 32" using lt by (simp add: P200_consts)
  then have nx: "(b + unat (nthreads st1)) mod 4294967296 = b + 1"
    using cex_inv_ctx [OF v1] by simp
  have m: "n = NBLOCKS P200 - (b + 1)" using Suc.hyps(2) by simp
  have le: "b + 1 \<le> NBLOCKS P200" using lt by simp
  from Suc.hyps(1) [OF m v1 le]
  obtain st' where r: "digit0_loop P200 leaf0 (htlayout_init P200 0) (hashsize P200 0) (b + 1) st1 = Some st'"
    and f: "cex_inv (2 * NBLOCKS P200) st'" by blast
  have "digit0_loop P200 leaf0 (htlayout_init P200 0) (hashsize P200 0) b st = Some st'"
    using r by (subst digit0_loop.simps) (simp add: lt s1 nx)
  then show ?case using f by blast
qed

lemma cex_start: "cex_inv (2 * 0) st_cex"
  by (simp add: cex_inv_def st_cex_def setnonce_def equi_new_def mem_junk_def zero_slot_def)

lemma cex_digit0:
  "digit0 P200 (\<lambda>_ _. stale_tree) 0 st_cex = Some st_cex_after0
   \<and> cex_inv (2 * NBLOCKS P200) st_cex_after0"
proof -
  have "(0::nat) \<le> NBLOCKS P200" by simp
  from cex_loop [OF cex_start this, of "\<lambda>_ _. stale_tree"] obtain st' where
    "digit0_loop P200 (\<lambda>_ _. stale_tree) (htlayout_init P200 0) (hashsize P200 0) 0 st_cex = Some st'"
    and "cex_inv (2 * NBLOCKS P200) st'" by blast
  then show ?thesis by (simp add: digit0_def st_cex_after0_def)
qed

text \<open>
  With N = 80 and K = 3 a Blake2b block yields 6 hashes, and 6 does not divide the
  \<open>2 ^ 21\<close> hashes of layer 0: the last block, 349525, is hashed in full, and its fourth hash
  is stored as leaf 2097153, beyond \<open>2 ^ (DIGITBITS + 1)\<close>.
\<close>

lemma digit0_leaf_beyond_range:
  "349525 < NBLOCKS P80 \<and> 3 < HASHESPERBLAKE P80 \<and> NHASHES P80 = 2 ^ (DIGITBITS P80 + 1)
   \<and> map_option (\<lambda>st. getindex (attr (heap (hta st) 0 0 0)))
        (digit0_hash P80 stale_tree (htlayout_init P80 0) (hashsize P80 0) 349525 (\<lambda>_. 0) 3 (equi_new 1 mem_junk))
      = Some 2097153
   \<and> (2097153 :: nat) > 2 ^ (DIGITBITS P80 + 1)"
proof -
  have hpb: "HASHESPERBLAKE P80 = 6" by (simp add: HASHESPERBLAKE_def P80_def)
  have nh: "NHASHES P80 = 2097152" by (simp add: NHASHES_def P80_consts)
  have nb: "NBLOCKS P80 = 349526" by (simp add: NBLOCKS_def hpb nh)
  have bits: "digit0_bits P80 (\<lambda>k. (\<lambda>_. 0 :: uchar) (3 * WN P80 div 8 + k)) = Some (0, 0)"
    by (simp add: digit0_bits_def P80_consts RESTBITS_def)
  have idx: "(of_nat 349525 * of_nat (HASHESPERBLAKE P80) + of_nat 3 :: u32) = 2097153"
    by (simp add: hpb)
  have "unat (2097153 :: u32) < 4194304" by simp
  then have g: "getindex (setindex P80 2097153 t) = 2097153" for t
    by (rule setindex_small)
  have g': "getindex (setindex P80 2097153 stale_tree\<lparr>xhash := take_bit RESTBITS 0\<rparr>) = 2097153"
    using g [of stale_tree] by (simp add: getindex_def)
  have b: "unat (0 :: u32) < NBUCKETS P80" "0 < WK P80"
    "unat (nslots (equi_new 1 mem_junk) 0 (unat (0 :: u32))) < NSLOTS"
    by (simp_all add: P80_consts equi_new_def mem_junk_def NSLOTS_64)
  have x: "XINTREE P80" by (simp add: P80_def)
  note st = digit0_hash_store [where P = P80 and ?leaf0.0 = stale_tree and hashv = "\<lambda>_. 0" and i = 3 and bid = 0
      and xh = 0 and st = "equi_new 1 mem_junk" and htl = "htlayout_init P80 0" and hb = "hashsize P80 0"
      and block = 349525, OF bits b]
  have "map_option (\<lambda>st. getindex (attr (heap (hta st) 0 0 0)))
        (digit0_hash P80 stale_tree (htlayout_init P80 0) (hashsize P80 0) 349525 (\<lambda>_. 0) 3 (equi_new 1 mem_junk))
      = Some 2097153"
    unfolding st idx using g' x by (simp add: equi_new_def mem_junk_def)
  then show ?thesis
    by (simp add: hpb nh nb P80_consts)
qed

subsection \<open>The tail-word comparison\<close>

text \<open>
  C3, as amended. For a digit width of at least 16 bits and every layer \<open>r\<close> with
  \<open>1 \<le> r \<le> K\<close>: two slots whose stored hash words \<open>0 .. prevhashunits - 1\<close> are all
  equal have equal tail words, so htlayout::equal returns true on every pair with equal
  stored hashes. The converse is not claimed: equal looks at the tail word only.
\<close>

theorem full_equal_implies_tail_equal:
  assumes D: "16 \<le> DIGITBITS P" and W: "WN P < 2 ^ 32"
    and r: "1 \<le> unat r" "unat r \<le> WK P"
    and f: "full_equal (htlayout_init P r) h0 h1"
  shows "htlayout_equal (htlayout_init P r) h0 h1"
proof -
  let ?n = "prevhashunits (htlayout_init P r)"
  have p: "1 \<le> unat ?n" using D W r by (rule prevhashunits_pos)
  then have "?n \<noteq> 0" by (auto simp: unat_eq_0)
  then have "unat (?n - 1) = unat ?n - 1" by (simp add: unat_minus_one)
  then have "unat (?n - 1) \<in> set [0..<unat ?n]" using p by simp
  then show ?thesis using f unfolding full_equal_def htlayout_equal_def list_all_iff by blast
qed

theorem full_equal_implies_tail_equal_witness:
  "16 \<le> DIGITBITS P200 \<and> WN P200 < 2 ^ 32 \<and> 1 \<le> unat (1 :: u32) \<and> unat (1 :: u32) \<le> WK P200
   \<and> full_equal (htlayout_init P200 1) (\<lambda>_. 0) (\<lambda>j. if j = 30 then 1 else 0)
   \<and> htlayout_equal (htlayout_init P200 1) (\<lambda>_. 0) (\<lambda>j. if j = 30 then 1 else 0)"
proof -
  have h: "16 \<le> DIGITBITS P200" "WN P200 < 2 ^ 32" "1 \<le> unat (1 :: u32)" "unat (1 :: u32) \<le> WK P200"
    by (simp_all add: P200_consts)
  have f: "full_equal (htlayout_init P200 1) (\<lambda>_. 0) (\<lambda>j. if j = 30 then 1 else 0)"
    by (simp add: full_equal_def P200_layout1 list_all_iff hashword_def)
  show ?thesis using h f full_equal_implies_tail_equal [OF h f] by blast
qed

text \<open>
  With the hash function \<open>blake_cex\<close>, one thread and the production parameters, digit0
  ends and leaves the two hashes of block 0 in slots 0 and 1 of bucket 0. Both have rest
  bits 0, their tail words (word 5) are equal, and word 2 differs: for this colliding pair
  equal returns true although the stored hashes are different.
\<close>

theorem tail_equal_counterexample:
  "digit0 P200 (\<lambda>_ _. stale_tree) 0 st_cex = Some st_cex_after0
   \<and> map_option fst (getnslots P200 0 0 st_cex_after0) = Some 64
   \<and> trees_get P200 (hta st_cex_after0) 0 0 0 = Some (heap (hta st_cex_after0) 0 0 0)
   \<and> trees_get P200 (hta st_cex_after0) 0 0 1 = Some (heap (hta st_cex_after0) 0 0 1)
   \<and> getxhash0 P200 (htlayout_init P200 1) (heap (hta st_cex_after0) 0 0 0)
       = getxhash0 P200 (htlayout_init P200 1) (heap (hta st_cex_after0) 0 0 1)
   \<and> htlayout_equal (htlayout_init P200 1)
        (hash (heap (hta st_cex_after0) 0 0 0)) (hash (heap (hta st_cex_after0) 0 0 1))
   \<and> \<not> full_equal (htlayout_init P200 1)
        (hash (heap (hta st_cex_after0) 0 0 0)) (hash (heap (hta st_cex_after0) 0 0 1))"
proof -
  have d: "digit0 P200 (\<lambda>_ _. stale_tree) 0 st_cex = Some st_cex_after0"
    and inv: "cex_inv (2 * NBLOCKS P200) st_cex_after0"
    using cex_digit0 by simp_all
  have c: "nslots st_cex_after0 0 0 = 2097152"
    and a: "xhash (attr (heap (hta st_cex_after0) 0 0 0)) = 0"
       "hash (heap (hta st_cex_after0) 0 0 0) = (\<lambda>_. 0)"
    and b: "xhash (attr (heap (hta st_cex_after0) 0 0 1)) = 0"
       "hash (heap (hta st_cex_after0) 0 0 1) = (\<lambda>j. if j = 9 then 1 else 0)"
    using inv by (simp_all add: cex_inv_def P200_consts)
  have n: "map_option fst (getnslots P200 0 0 st_cex_after0) = Some 64"
    by (simp add: getnslots_def P200_consts c min_u32_def NSLOTS_64 Let_def)
  have t: "trees_get P200 (hta st_cex_after0) 0 0 0 = Some (heap (hta st_cex_after0) 0 0 0)"
     "trees_get P200 (hta st_cex_after0) 0 0 1 = Some (heap (hta st_cex_after0) 0 0 1)"
    by (simp_all add: trees_get_def trees_ok_def P200_consts NSLOTS_64)
  have x: "getxhash0 P200 (htlayout_init P200 1) (heap (hta st_cex_after0) 0 0 0)
       = getxhash0 P200 (htlayout_init P200 1) (heap (hta st_cex_after0) 0 0 1)"
    using a b by (simp add: getxhash0_def P200_consts)
  have e: "htlayout_equal (htlayout_init P200 1)
        (hash (heap (hta st_cex_after0) 0 0 0)) (hash (heap (hta st_cex_after0) 0 0 1))"
    using a b by (simp add: htlayout_equal_def P200_layout1 hashword_def)
  have "(2 :: nat) \<in> set [0..<unat (prevhashunits (htlayout_init P200 1))]"
    by (simp add: P200_layout1)
  moreover have "hashword (hash (heap (hta st_cex_after0) 0 0 0)) 2
      \<noteq> hashword (hash (heap (hta st_cex_after0) 0 0 1)) 2"
    using a b by (simp add: hashword_def)
  ultimately have f: "\<not> full_equal (htlayout_init P200 1)
        (hash (heap (hta st_cex_after0) 0 0 0)) (hash (heap (hta st_cex_after0) 0 0 1))"
    unfolding full_equal_def list_all_iff by blast
  show ?thesis using d n t x e f by blast
qed

subsection \<open>Full buckets\<close>

lemma store_xor_full:
  assumes "unat xb < NBUCKETS P" "NSLOTS \<le> unat (nslots st (r mod 2) (unat xb))"
  shows "store_xor P htl r bid sl0 sl1 xb xh p0 p1 st = Some (dropped r (unat xb) st)"
  using assms by (simp add: store_xor_def getslot_def dropped_def)

lemma digit_pair_full:
  assumes "trees_get P (hta st) (r - 1) bid (unat sl0) = Some p0"
    and "trees_get P (hta st) (r - 1) bid (unat sl1) = Some p1"
    and "\<not> htlayout_equal htl (hash p0) (hash p1)"
    and "bits htl (hash p0) (hash p1) = Some (xb, xh)"
    and "unat xb < NBUCKETS P" "NSLOTS \<le> unat (nslots st (r mod 2) (unat xb))"
  shows "digit_pair P bits htl r bid sl1 sl0 st = Some (dropped r (unat xb) st)"
  using assms by (simp add: digit_pair_def store_xor_full)

lemma getslot_stays_full:
  assumes g: "getslot P r b st = Some (sl, st')" and f: "NSLOTS \<le> unat sl" and w: "unat sl < 2 ^ 32 - 1"
  shows "map_option fst (getslot P r b st') = Some (sl + 1) \<and> NSLOTS \<le> unat (sl + 1)"
proof -
  have b: "b < NBUCKETS P" using g by (simp add: getslot_def split: if_splits)
  have sl: "sl = nslots st (r mod 2) b" and st': "nslots st' (r mod 2) b = sl + 1"
    using g b by (auto simp: getslot_def)
  have "unat sl + unat (1 :: u32) < 2 ^ LENGTH(32)" using w by simp
  then have "unat (sl + 1) = unat sl + 1" by (simp only: unat_add_lem [THEN iffD1] unat_1)
  then show ?thesis using f b st' by (simp add: getslot_def)
qed

lemma P200_layout2: "htlayout_init P200 2 = \<lparr>prevhashunits = 5, nexthashunits = 5, dunits = 0, prevbo = 0, nextbo = 2\<rparr>"
  by (simp_all add: hashsize_def htlayout_init_def hashwords_def P200_consts Let_def)

lemma st_full_slots:
  "trees_get P200 (hta st_full) 0 0 (unat (0 :: u32)) = Some zero_slot"
  "trees_get P200 (hta st_full) 0 0 (unat (1 :: u32))
     = Some (zero_slot\<lparr>hash := (\<lambda>j. if j = 19 \<or> j = 23 then 1 else 0)\<rparr>)"
  "trees_get P200 (hta st_full) 1 0 (unat (0 :: u32)) = Some zero_slot"
  "trees_get P200 (hta st_full) 1 0 (unat (1 :: u32))
     = Some (zero_slot\<lparr>hash := (\<lambda>j. if j = 19 \<or> j = 23 then 1 else 0)\<rparr>)"
  by (simp_all add: trees_get_def trees_ok_def P200_consts NSLOTS_64 st_full_def equi_new_def mem_junk_def)

text \<open>
  C5. In digit0, and in the collision loops of digitodd and digiteven, a slot reservation
  that returns an index of NSLOTS or more drops the candidate slot: the function returns
  the state \<open>dropped\<close>, in which \<open>bfull\<close> and the counter of the bucket are one more and
  the arena is what it was. The counter stays at NSLOTS or more (it is 32 bits wide and
  does not reach \<open>2^32\<close> in a layer), so the next reservation in that bucket is dropped
  as well: a bucket that holds NSLOTS slots accepts no more in that layer.
\<close>

theorem full_bucket_drops_slot:
  "(digit0_bits P (\<lambda>k. hashv (i * WN P div 8 + k)) = Some (b0, x0) \<and> unat b0 < NBUCKETS P
      \<and> NSLOTS \<le> unat (nslots st 0 (unat b0))
      \<longrightarrow> digit0_hash P leaf0 htl hb block hashv i st = Some (dropped 0 (unat b0) st))
   \<and> (trees_get P (hta st) (r - 1) bid (unat sl0) = Some p0
      \<and> trees_get P (hta st) (r - 1) bid (unat sl1) = Some p1
      \<and> \<not> htlayout_equal htl (hash p0) (hash p1)
      \<and> bits htl (hash p0) (hash p1) = Some (xb, xh)
      \<and> (bits = digitodd_bits P \<or> bits = digiteven_bits P)
      \<and> unat xb < NBUCKETS P \<and> NSLOTS \<le> unat (nslots st (r mod 2) (unat xb))
      \<longrightarrow> digit_pair P bits htl r bid sl1 sl0 st = Some (dropped r (unat xb) st))
   \<and> hta (dropped r b st) = hta st
   \<and> bfull (dropped r b st) = bfull st + 1
   \<and> (getslot P r b st = Some (sl, st') \<and> NSLOTS \<le> unat sl \<and> unat sl < 2 ^ 32 - 1
      \<longrightarrow> map_option fst (getslot P r b st') = Some (sl + 1) \<and> NSLOTS \<le> unat (sl + 1))"
proof (intro conjI impI)
  assume "digit0_bits P (\<lambda>k. hashv (i * WN P div 8 + k)) = Some (b0, x0) \<and> unat b0 < NBUCKETS P
      \<and> NSLOTS \<le> unat (nslots st 0 (unat b0))"
  then show "digit0_hash P leaf0 htl hb block hashv i st = Some (dropped 0 (unat b0) st)"
    using digit0_hash_full [of P hashv i b0 x0 st leaf0 htl hb block] by (simp add: dropped_def)
next
  assume "trees_get P (hta st) (r - 1) bid (unat sl0) = Some p0
      \<and> trees_get P (hta st) (r - 1) bid (unat sl1) = Some p1
      \<and> \<not> htlayout_equal htl (hash p0) (hash p1)
      \<and> bits htl (hash p0) (hash p1) = Some (xb, xh)
      \<and> (bits = digitodd_bits P \<or> bits = digiteven_bits P)
      \<and> unat xb < NBUCKETS P \<and> NSLOTS \<le> unat (nslots st (r mod 2) (unat xb))"
  then show "digit_pair P bits htl r bid sl1 sl0 st = Some (dropped r (unat xb) st)"
    using digit_pair_full [of P st r bid sl0 p0 sl1 p1 htl bits xb xh] by blast
next
  show "hta (dropped r b st) = hta st" by (simp add: dropped_def)
  show "bfull (dropped r b st) = bfull st + 1" by (simp add: dropped_def)
next
  assume a: "getslot P r b st = Some (sl, st') \<and> NSLOTS \<le> unat sl \<and> unat sl < 2 ^ 32 - 1"
  then show "map_option fst (getslot P r b st') = Some (sl + 1)" "NSLOTS \<le> unat (sl + 1)"
    using getslot_stays_full [of P r b st sl st'] by blast+
qed

theorem full_bucket_drops_slot_witness:
  "digit0_hash P200 stale_tree (htlayout_init P200 1) 23 0 (blake_cex 0) 0 st_full = Some (dropped 0 0 st_full)
   \<and> digit_pair P200 (digitodd_bits P200) (htlayout_init P200 1) 1 0 1 0 st_full
       = Some (dropped 1 0 st_full)
   \<and> digit_pair P200 (digiteven_bits P200) (htlayout_init P200 2) 2 0 1 0 st_full
       = Some (dropped 2 0 st_full)
   \<and> hta (dropped 1 0 st_full) = hta st_full
   \<and> bfull (dropped 1 0 st_full) = 6
   \<and> map_option fst (getslot P200 1 0 st_full) = Some 64
   \<and> map_option fst (getslot P200 1 0 (dropped 1 0 st_full)) = Some 65"
proof -
  let ?p1 = "zero_slot\<lparr>hash := (\<lambda>j. if j = 19 \<or> j = 23 then 1 else 0)\<rparr>"
  have bits0: "digit0_bits P200 (\<lambda>k. blake_cex 0 (0 * WN P200 div 8 + k)) = Some (0, 0)"
    by (rule cex_bits) simp
  have nb: "unat (0 :: u32) < NBUCKETS P200" by (simp add: P200_consts)
  have full: "NSLOTS \<le> unat (nslots st_full 0 (unat (0 :: u32)))"
    "NSLOTS \<le> unat (nslots st_full (1 mod 2) (unat (0 :: u32)))"
    "NSLOTS \<le> unat (nslots st_full (2 mod 2) (unat (0 :: u32)))"
    by (simp_all add: st_full_def NSLOTS_64)
  have ne1: "\<not> htlayout_equal (htlayout_init P200 1) (hash zero_slot) (hash ?p1)"
    by (simp add: htlayout_equal_def P200_layout1 hashword_def zero_slot_def)
  have ne2: "\<not> htlayout_equal (htlayout_init P200 2) (hash zero_slot) (hash ?p1)"
    by (simp add: htlayout_equal_def P200_layout2 hashword_def zero_slot_def)
  have o: "digitodd_bits P200 (htlayout_init P200 1) (hash zero_slot) (hash ?p1) = Some (0, 0)"
    by (simp add: digitodd_bits_def P200_layout1 P200_consts RESTBITS_def zero_slot_def Let_def)
  have e: "digiteven_bits P200 (htlayout_init P200 2) (hash zero_slot) (hash ?p1) = Some (0, 0)"
    by (simp add: digiteven_bits_def P200_layout2 P200_consts RESTBITS_def zero_slot_def Let_def)
  have g: "getslot P200 1 0 st_full = Some (64, snd (the (getslot P200 1 0 st_full)))"
    by (simp add: getslot_def P200_consts st_full_def)
  have g64: "NSLOTS \<le> unat (64 :: u32)" "unat (64 :: u32) < 2 ^ 32 - 1" by (simp_all add: NSLOTS_64)
  note w1 = full_bucket_drops_slot [where P = P200 and ?leaf0.0 = stale_tree and hashv = "blake_cex 0" and i = 0
      and ?b0.0 = 0 and ?x0.0 = 0 and st = st_full and htl = "htlayout_init P200 1" and hb = 23
      and block = 0 and r = 1 and bid = 0 and ?sl0.0 = 0 and ?sl1.0 = 1 and ?p0.0 = zero_slot
      and ?p1.0 = ?p1 and bits = "digitodd_bits P200" and xb = 0 and xh = 0 and b = 0
      and sl = 64 and st' = "snd (the (getslot P200 1 0 st_full))"]
  note w2 = full_bucket_drops_slot [where P = P200 and ?leaf0.0 = stale_tree and hashv = "blake_cex 0" and i = 0
      and ?b0.0 = 0 and ?x0.0 = 0 and st = st_full and htl = "htlayout_init P200 2" and hb = 23
      and block = 0 and r = 2 and bid = 0 and ?sl0.0 = 0 and ?sl1.0 = 1 and ?p0.0 = zero_slot
      and ?p1.0 = ?p1 and bits = "digiteven_bits P200" and xb = 0 and xh = 0 and b = 0
      and sl = 64 and st' = "snd (the (getslot P200 1 0 st_full))"]
  have a1: "digit0_hash P200 stale_tree (htlayout_init P200 1) 23 0 (blake_cex 0) 0 st_full
        = Some (dropped 0 0 st_full)"
    using w1 bits0 nb full(1) by simp
  have a2: "digit_pair P200 (digitodd_bits P200) (htlayout_init P200 1) 1 0 1 0 st_full
       = Some (dropped 1 0 st_full)"
    using w1 st_full_slots(1,2) ne1 o nb full(2) by simp
  have a3: "digit_pair P200 (digiteven_bits P200) (htlayout_init P200 2) 2 0 1 0 st_full
       = Some (dropped 2 0 st_full)"
    using w2 st_full_slots(3,4) ne2 e nb full(3) by simp
  have a4: "hta (dropped 1 0 st_full) = hta st_full" "bfull (dropped 1 0 st_full) = 6"
    using w1 by (simp_all add: st_full_def equi_new_def mem_junk_def)
  have a5: "map_option fst (getslot P200 1 0 st_full) = Some 64"
    using g by (metis fst_conv option.simps(9))
  have d: "snd (the (getslot P200 1 0 st_full))
      = st_full\<lparr>nslots := (nslots st_full)(1 := (nslots st_full 1)(0 := 65))\<rparr>"
    by (simp add: getslot_def P200_consts st_full_def)
  have "map_option fst (getslot P200 1 0 (snd (the (getslot P200 1 0 st_full)))) = Some (64 + 1)"
    using w1 g g64 by blast
  then have a6: "map_option fst (getslot P200 1 0 (dropped 1 0 st_full)) = Some 65"
    unfolding d by (simp add: getslot_def dropped_def P200_consts st_full_def)
  show ?thesis using a1 a2 a3 a4 a5 a6 by blast
qed

end
